theory Spec2Isabelle
  imports Complex_Main "HOL-Library.Log_Nat" "HOL-Library.Sublist" "HOL-Library.Monad_Syntax"
begin

section \<open>Rolling top-N aggregation of the live dashboard server\<close>

text \<open>
  The server script folds a paginated stream of orders into per-category running totals
  and, after every page, hands the top-N categories to a callback that broadcasts them to
  the connected WebSocket clients.
\<close>

subsection \<open>JavaScript numbers\<close>

text \<open>
  Quantities, prices, totals and the limit are JavaScript numbers: IEEE 754 doubles. A
  number is \<open>NaN\<close>, an infinity, or a finite value, kept as the rational it stands for.
  The two zeros are one value here: the code only adds, multiplies, subtracts, truncates
  and compares, and none of these tells them apart in its result except by the sign of a
  zero.
\<close>

datatype number = NaN | NegInf | Fin rat | PosInf

text \<open>
  Rounding a rational to the nearest double, ties to even. \<open>log2_floor x\<close> is the
  exponent of the power of two at or below a positive \<open>x\<close>; a double has 53 significant
  bits and no exponent below \<open>-1074\<close>; what rounds to \<open>2 ^ 1024\<close> or more is infinite.
\<close>

definition log2_floor :: "rat \<Rightarrow> int" where
  "log2_floor x =
     (let (p, q) = quotient_of x; d = bitlen p - bitlen q
      in if 2 powi d \<le> x then d else d - 1)"

definition round_even :: "rat \<Rightarrow> int" where
  "round_even x =
     (let f = \<lfloor>x\<rfloor>; r = x - of_int f
      in if r < 1 / 2 then f else if 1 / 2 < r then f + 1 else if even f then f else f + 1)"

definition ulp_exp :: "rat \<Rightarrow> int" where
  "ulp_exp x = max (- 1074) (log2_floor x - 52)"

definition round_val :: "rat \<Rightarrow> rat" where
  "round_val x = of_int (round_even (x / 2 powi ulp_exp x)) * 2 powi ulp_exp x"

definition round_pos :: "rat \<Rightarrow> number" where
  "round_pos x = (if 2 powi 1024 \<le> round_val x then PosInf else Fin (round_val x))"

fun negate :: "number \<Rightarrow> number" where
  "negate NaN = NaN"
| "negate NegInf = PosInf"
| "negate (Fin x) = Fin (- x)"
| "negate PosInf = NegInf"

definition round_double :: "rat \<Rightarrow> number" where
  "round_double x = (if x < 0 then negate (round_pos (- x)) else round_pos x)"

text \<open>The operators \<open>+\<close>, \<open>-\<close> and \<open>*\<close> of the language.\<close>

fun jadd :: "number \<Rightarrow> number \<Rightarrow> number" where
  "jadd NaN y = NaN"
| "jadd x NaN = NaN"
| "jadd PosInf NegInf = NaN"
| "jadd NegInf PosInf = NaN"
| "jadd PosInf y = PosInf"
| "jadd x PosInf = PosInf"
| "jadd NegInf y = NegInf"
| "jadd x NegInf = NegInf"
| "jadd (Fin a) (Fin b) = round_double (a + b)"

definition jsub :: "number \<Rightarrow> number \<Rightarrow> number" where
  "jsub x y = jadd x (negate y)"

fun jmul :: "number \<Rightarrow> number \<Rightarrow> number" where
  "jmul NaN y = NaN"
| "jmul x NaN = NaN"
| "jmul (Fin a) (Fin b) = round_double (a * b)"
| "jmul (Fin a) y = (if a = 0 then NaN else if 0 < a then y else negate y)"
| "jmul x (Fin b) = (if b = 0 then NaN else if 0 < b then x else negate x)"
| "jmul PosInf y = y"
| "jmul NegInf y = negate y"

text \<open>The comparisons \<open>x <= y\<close> and \<open>x < y\<close>: false as soon as one side is \<open>NaN\<close>.\<close>

fun num_le :: "number \<Rightarrow> number \<Rightarrow> bool" where
  "num_le NaN y = False"
| "num_le x NaN = False"
| "num_le NegInf y = True"
| "num_le x PosInf = True"
| "num_le (Fin a) (Fin b) = (a \<le> b)"
| "num_le x y = False"

definition num_lt :: "number \<Rightarrow> number \<Rightarrow> bool" where
  "num_lt x y = (num_le x y \<and> x \<noteq> y)"

text \<open>
  The values a variable of type \<open>number\<close> can hold: a finite one is a double, which is
  to say that rounding leaves it as it is.
\<close>

fun is_double :: "number \<Rightarrow> bool" where
  "is_double (Fin q) = (round_double q = Fin q)"
| "is_double x = True"

text \<open>Truncation towards zero, as \<open>ToIntegerOrInfinity\<close> does with a finite number.\<close>

definition trunc :: "rat \<Rightarrow> int" where
  "trunc q = (if 0 \<le> q then \<lfloor>q\<rfloor> else \<lceil>q\<rceil>)"

subsection \<open>Domain types\<close>

datatype status = Paid | Pending | Cancelled | Refunded

record LineItem =
  sku :: string
  qty :: number
  unitPrice :: number
  category :: string

record Order =
  order_id :: string
  customerId :: string
  createdAt :: string
  status :: status
  items :: "LineItem list"

text \<open>The object literal \<open>{ category, total }\<close> built inside \<open>processPageToSales\<close>.\<close>

record Sale =
  sale_category :: string
  total :: number

text \<open>
  What a JavaScript call can throw here: the \<open>RangeError\<close> of the iterator helper
  \<open>take\<close>, or any value thrown by the page stream or by the update callback.
\<close>

datatype error = RangeError | Thrown string

subsection \<open>The built-in \<open>Map\<close>\<close>

text \<open>
  A JavaScript \<open>Map\<close> iterates in insertion order, and \<open>topNFromMap\<close> sorts its
  entries with a stable sort, so the order is observable. A \<open>Map\<close> is therefore an
  association list in insertion order whose keys are distinct (\<open>Map_ok\<close>).
  \<open>set\<close> overwrites the value of a present key in place and appends an absent key.
\<close>

type_synonym ('k, 'v) Map = "('k \<times> 'v) list"

definition Map_ok :: "('k, 'v) Map \<Rightarrow> bool" where
  "Map_ok m = distinct (map fst m)"

fun Map_get :: "('k, 'v) Map \<Rightarrow> 'k \<Rightarrow> 'v option" where
  "Map_get [] k = None"
| "Map_get ((k', v') # m) k = (if k' = k then Some v' else Map_get m k)"

fun Map_set :: "('k, 'v) Map \<Rightarrow> 'k \<Rightarrow> 'v \<Rightarrow> ('k, 'v) Map" where
  "Map_set [] k v = [(k, v)]"
| "Map_set ((k', v') # m) k v =
     (if k' = k then (k, v) # m else (k', v') # Map_set m k v)"

text \<open>The nullish coalescing operator \<open>x ?? d\<close> on the result of \<open>get\<close>.\<close>

fun nullish :: "'v option \<Rightarrow> 'v \<Rightarrow> 'v" where
  "nullish None d = d"
| "nullish (Some v) d = v"

subsection \<open>Array and iterator helpers\<close>

text \<open>
  \<open>Array.prototype.toSorted(cmp)\<close> returns a sorted copy and is stable. It reads the
  comparator through \<open>SortCompare\<close>, which takes a \<open>NaN\<close> result for 0. The algorithm
  is left to the engine; with a consistent comparator every stable sort returns the same
  array, and insertion sort is the one written here: an element goes in front of the
  first element it does not have to follow (comparison result at most 0).
\<close>

definition SortCompare :: "('a \<Rightarrow> 'a \<Rightarrow> number) \<Rightarrow> 'a \<Rightarrow> 'a \<Rightarrow> number" where
  "SortCompare cmp x y = (let v = cmp x y in if v = NaN then Fin 0 else v)"

fun insert_sorted :: "('a \<Rightarrow> 'a \<Rightarrow> number) \<Rightarrow> 'a \<Rightarrow> 'a list \<Rightarrow> 'a list" where
  "insert_sorted cmp x [] = [x]"
| "insert_sorted cmp x (y # ys) =
     (if num_le (SortCompare cmp x y) (Fin 0) then x # y # ys
      else y # insert_sorted cmp x ys)"

definition toSorted :: "('a \<Rightarrow> 'a \<Rightarrow> number) \<Rightarrow> 'a list \<Rightarrow> 'a list" where
  "toSorted cmp xs = foldr (insert_sorted cmp) xs []"

text \<open>
  \<open>Iterator.prototype.take(limit)\<close> throws a \<open>RangeError\<close> when the limit is
  \<open>NaN\<close> or when, truncated to an integer, it is negative; otherwise it yields at most
  that many elements, all of them for an infinite limit.
\<close>

definition Iterator_take :: "number \<Rightarrow> 'a list \<Rightarrow> error + 'a list" where
  "Iterator_take limit xs =
     (case limit of
        NaN \<Rightarrow> Inl RangeError
      | NegInf \<Rightarrow> Inl RangeError
      | PosInf \<Rightarrow> Inr xs
      | Fin q \<Rightarrow> (if trunc q < 0 then Inl RangeError else Inr (take (nat (trunc q)) xs)))"

subsection \<open>The helper functions of the server\<close>

definition topNFromMap :: "('k, number) Map \<Rightarrow> number \<Rightarrow> error + ('k \<times> number) list" where
  "topNFromMap m n = Iterator_take n (toSorted (\<lambda>a b. jsub (snd b) (snd a)) m)"

definition processPageToSales :: "Order list \<Rightarrow> (string, number) Map" where
  "processPageToSales page =
     foldl (\<lambda>acc sale. Map_set acc (sale_category sale)
                          (jadd (nullish (Map_get acc (sale_category sale)) (Fin 0)) (total sale)))
       []
       (concat (map (\<lambda>ord. map (\<lambda>it. \<lparr>sale_category = category it,
                                          total = jmul (qty it) (unitPrice it)\<rparr>) (items ord))
                 (filter (\<lambda>ord. status ord = Paid) page)))"

definition mergeCategoryTotals ::
    "(string, number) Map \<Rightarrow> (string, number) Map \<Rightarrow> (string, number) Map" where
  "mergeCategoryTotals a b =
     foldl (\<lambda>result (category, total).
              Map_set result category (jadd (nullish (Map_get result category) (Fin 0)) total))
       a b"

subsection \<open>The streaming driver\<close>

text \<open>
  The page stream is an async generator. It is a finite list of segments: a pull runs the
  next segment, which acts on the world around the driver (a state \<open>'s\<close>) and ends by
  yielding a page or by throwing; after the last segment the generator returns. A
  source that does nothing but hand over its pages is a \<open>pure_source\<close>.
\<close>

datatype 'a pull = Yield 'a | Throws error

type_synonym 's source = "('s \<Rightarrow> Order list pull \<times> 's) list"

definition pure_source :: "Order list pull list \<Rightarrow> 's source" where
  "pure_source pulls = map (\<lambda>p s. (p, s)) pulls"

type_synonym snapshot = "(string \<times> number) list"

text \<open>
  The update callback is called and not awaited. What the driver runs of it is the call
  itself, which acts on the world and may throw: a function on the state that also says
  whether it threw. What the call returns is dropped; work that an \<open>async\<close> callback
  leaves pending when its call returns belongs to the world.
\<close>

type_synonym 's callback = "snapshot \<Rightarrow> int \<Rightarrow> 's \<Rightarrow> error option \<times> 's"

text \<open>
  The \<open>for await\<close> loop of \<open>streamTopCategories\<close>, with its two local variables as
  arguments. A throw of the stream, of \<open>topNFromMap\<close> or of the callback leaves the
  loop and rejects the promise. The page index is a counter from 0 in steps of 1, far
  below \<open>2 ^ 53\<close> for any stream that can be consumed, and kept as an integer.
\<close>

fun stream_loop ::
    "'s callback \<Rightarrow> number \<Rightarrow> (string, number) Map \<Rightarrow> int \<Rightarrow> 's source \<Rightarrow> 's
      \<Rightarrow> (error + (string, number) Map) \<times> 's" where
  "stream_loop onUpdate limit runningTotals pageIndex [] s = (Inr runningTotals, s)"
| "stream_loop onUpdate limit runningTotals pageIndex (next # pages) s =
     (case next s of
        (Throws e, s1) \<Rightarrow> (Inl e, s1)
      | (Yield page, s1) \<Rightarrow>
          (let pageTotals = processPageToSales page;
               runningTotals' = mergeCategoryTotals runningTotals pageTotals
           in case topNFromMap runningTotals' limit of
                Inl e \<Rightarrow> (Inl e, s1)
              | Inr snapshot \<Rightarrow>
                  (case onUpdate snapshot pageIndex s1 of
                     (Some e, s2) \<Rightarrow> (Inl e, s2)
                   | (None, s2) \<Rightarrow>
                       stream_loop onUpdate limit runningTotals' (pageIndex + 1) pages s2)))"

definition streamTopCategories ::
    "'s source \<Rightarrow> number \<Rightarrow> 's callback \<Rightarrow> 's
      \<Rightarrow> (error + (string, number) Map) \<times> 's" where
  "streamTopCategories pages limit onUpdate s = stream_loop onUpdate limit [] 0 pages s"

text \<open>
  To speak about the invocations of an arbitrary callback, \<open>logged\<close> wraps it so that
  every invocation is appended to a log with its two arguments, whether it throws or not.
\<close>

definition logged :: "'s callback \<Rightarrow> ((snapshot \<times> int) list \<times> 's) callback" where
  "logged onUpdate snapshot pageIndex =
     (\<lambda>(calls, s). case onUpdate snapshot pageIndex s of
                      (r, s') \<Rightarrow> (r, (calls @ [(snapshot, pageIndex)], s')))"

text \<open>
  To speak about the order of pulls and invocations, \<open>traced_pull\<close> and \<open>traced\<close>
  wrap a segment of the source and the callback so that each appends an event to one
  common trace when it has run: \<open>Pulled\<close> when a pull has delivered, \<open>Called\<close> when a
  call of the callback has returned. \<open>Finished\<close> is for the work of an \<open>async\<close>
  callback, named by its page index, when it has come to its end.
\<close>

datatype event = Pulled "Order list pull" | Called snapshot int | Finished int

definition traced_pull ::
    "('s \<Rightarrow> Order list pull \<times> 's) \<Rightarrow> event list \<times> 's \<Rightarrow> Order list pull \<times> (event list \<times> 's)" where
  "traced_pull next = (\<lambda>(events, s). case next s of
                         (p, s') \<Rightarrow> (p, (events @ [Pulled p], s')))"

definition traced :: "'s callback \<Rightarrow> (event list \<times> 's) callback" where
  "traced onUpdate snapshot pageIndex =
     (\<lambda>(events, s). case onUpdate snapshot pageIndex s of
                       (r, s') \<Rightarrow> (r, (events @ [Called snapshot pageIndex], s')))"

text \<open>
  The trace in which every page is pulled and then reported before the next one is
  pulled: pull, call, pull, call, and so on.
\<close>

fun interleave :: "Order list list \<Rightarrow> (snapshot \<times> int) list \<Rightarrow> event list" where
  "interleave (page # pages) (call # calls) =
     Pulled (Yield page) # Called (fst call) (snd call) # interleave pages calls"
| "interleave pages calls = []"

text \<open>
  The first two statements of the loop body take the running totals from one page to the
  next; \<open>runningTotals_after pages\<close> is the value of the local variable
  \<open>runningTotals\<close> once the body has run for each page of \<open>pages\<close>.
\<close>

definition page_step :: "(string, number) Map \<Rightarrow> Order list \<Rightarrow> (string, number) Map" where
  "page_step runningTotals page = mergeCategoryTotals runningTotals (processPageToSales page)"

definition runningTotals_after :: "Order list list \<Rightarrow> (string, number) Map" where
  "runningTotals_after pages = foldl page_step [] pages"

text \<open>The pages a stream hands over before it ends or throws.\<close>

fun yielded :: "'a pull list \<Rightarrow> 'a list" where
  "yielded [] = []"
| "yielded (Throws e # pulls) = []"
| "yielded (Yield page # pulls) = page # yielded pulls"

text \<open>The total shown for a category: its entry, or 0 when there is none yet.\<close>

definition total_of :: "(string, number) Map \<Rightarrow> string \<Rightarrow> number" where
  "total_of m c = nullish (Map_get m c) (Fin 0)"

text \<open>
  A page whose quantities and unit prices are not negative, and one where no line item
  multiplies an infinite number by zero.
\<close>

definition nonneg_page :: "Order list \<Rightarrow> bool" where
  "nonneg_page page =
     (\<forall>ord \<in> set page. \<forall>it \<in> set (items ord).
        num_le (Fin 0) (qty it) \<and> num_le (Fin 0) (unitPrice it))"

definition no_zero_times_infinity :: "Order list \<Rightarrow> bool" where
  "no_zero_times_infinity page =
     (\<forall>ord \<in> set page. \<forall>it \<in> set (items ord).
        \<not> (qty it = PosInf \<and> unitPrice it = Fin 0) \<and>
        \<not> (qty it = Fin 0 \<and> unitPrice it = PosInf))"

text \<open>
  An \<open>async\<close> callback that waits for something before it does its work, as in
  \<open>async (snapshot, pageIndex) => { await later; ... }\<close>: the call returns a promise at
  once and the work is pending, here as the page index in a list. The event loop
  finishes the pending work in a later turn, \<open>event_loop\<close>.
\<close>

definition deferred_callback :: "int list callback" where
  "deferred_callback snapshot pageIndex pending = (None, pending @ [pageIndex])"

definition event_loop :: "event list \<times> int list \<Rightarrow> event list \<times> int list" where
  "event_loop = (\<lambda>(events, pending). (events @ map Finished pending, []))"

text \<open>A callback that only counts its invocations.\<close>

definition count_calls :: "nat callback" where
  "count_calls snapshot pageIndex n = (None, Suc n)"

subsection \<open>The mock page source\<close>

text \<open>The three pages of \<open>fetchOrderPages\<close>; the generator never throws.\<close>

definition page1 :: "Order list" where
  "page1 =
    [\<lparr>order_id = ''o1'', customerId = ''c1'', createdAt = ''2025-08-01T10:00:00Z'', status = Paid,
      items = [\<lparr>sku = ''A1'', qty = Fin 2, unitPrice = Fin 1200, category = ''books''\<rparr>,
               \<lparr>sku = ''F4'', qty = Fin 3, unitPrice = Fin 500, category = ''food''\<rparr>]\<rparr>,
     \<lparr>order_id = ''o2'', customerId = ''c2'', createdAt = ''2025-08-02T09:00:00Z'', status = Paid,
      items = [\<lparr>sku = ''T9'', qty = Fin 1, unitPrice = Fin 9999, category = ''tools''\<rparr>,
               \<lparr>sku = ''B2'', qty = Fin 1, unitPrice = Fin 2500, category = ''books''\<rparr>]\<rparr>]"

definition page2 :: "Order list" where
  "page2 =
    [\<lparr>order_id = ''o3'', customerId = ''c3'', createdAt = ''2025-08-03T12:00:00Z'', status = Pending,
      items = [\<lparr>sku = ''X'', qty = Fin 10, unitPrice = Fin 100, category = ''food''\<rparr>]\<rparr>,
     \<lparr>order_id = ''o4'', customerId = ''c4'', createdAt = ''2025-08-04T14:00:00Z'', status = Paid,
      items = [\<lparr>sku = ''H1'', qty = Fin 1, unitPrice = Fin 5000, category = ''tools''\<rparr>,
               \<lparr>sku = ''F5'', qty = Fin 2, unitPrice = Fin 800, category = ''food''\<rparr>]\<rparr>]"

definition page3 :: "Order list" where
  "page3 =
    [\<lparr>order_id = ''o5'', customerId = ''c5'', createdAt = ''2025-08-05T16:00:00Z'', status = Paid,
      items = [\<lparr>sku = ''B3'', qty = Fin 3, unitPrice = Fin 1800, category = ''books''\<rparr>,
               \<lparr>sku = ''T2'', qty = Fin 1, unitPrice = Fin 15000, category = ''tools''\<rparr>]\<rparr>]"

definition fetchOrderPages :: "'s source" where
  "fetchOrderPages = pure_source [Yield page1, Yield page2, Yield page3]"

text \<open>
  A page with one paid line item of category \<open>books\<close> whose quantity is infinite and
  whose unit price is 0.
\<close>

definition infinite_qty_page :: "Order list" where
  "infinite_qty_page =
    [\<lparr>order_id = ''o6'', customerId = ''c6'', createdAt = ''2025-08-06T10:00:00Z'', status = Paid,
      items = [\<lparr>sku = ''B9'', qty = PosInf, unitPrice = Fin 0, category = ''books''\<rparr>]\<rparr>]"

section \<open>The helper functions on a heap of objects\<close>

text \<open>
  Maps, arrays and objects are mutable and may be shared, so whether a function leaves
  its arguments alone is a question about the heap. Here the heap is a list of cells, a
  reference is an index into it, and a new object goes to the end. The only operation
  of the helper functions that writes into an existing object is \<open>Map.prototype.set\<close>;
  \<open>filter\<close>, \<open>flatMap\<close>, \<open>map\<close>, \<open>new Map\<close> and the object literal allocate.
  A read of a cell of the wrong kind, which the type checker excludes, gives \<open>None\<close>.
\<close>

type_synonym ref = nat

record OrderObj =
  o_id :: string
  o_customerId :: string
  o_createdAt :: string
  o_status :: status
  o_items :: ref

datatype cell =
    MapCell "(string, number) Map"
  | ArrayCell "ref list"
  | OrderCell OrderObj
  | ItemCell LineItem
  | SaleCell Sale

type_synonym heap = "cell list"

definition lookup :: "heap \<Rightarrow> ref \<Rightarrow> cell option" where
  "lookup h r = (if r < length h then Some (h ! r) else None)"

definition alloc :: "heap \<Rightarrow> cell \<Rightarrow> heap \<times> ref" where
  "alloc h c = (h @ [c], length h)"

definition get_Map :: "heap \<Rightarrow> ref \<Rightarrow> (string, number) Map option" where
  "get_Map h r = (case lookup h r of Some (MapCell m) \<Rightarrow> Some m | _ \<Rightarrow> None)"

definition get_Array :: "heap \<Rightarrow> ref \<Rightarrow> ref list option" where
  "get_Array h r = (case lookup h r of Some (ArrayCell rs) \<Rightarrow> Some rs | _ \<Rightarrow> None)"

definition get_Order :: "heap \<Rightarrow> ref \<Rightarrow> OrderObj option" where
  "get_Order h r = (case lookup h r of Some (OrderCell ob) \<Rightarrow> Some ob | _ \<Rightarrow> None)"

definition get_Item :: "heap \<Rightarrow> ref \<Rightarrow> LineItem option" where
  "get_Item h r = (case lookup h r of Some (ItemCell it) \<Rightarrow> Some it | _ \<Rightarrow> None)"

definition get_Sale :: "heap \<Rightarrow> ref \<Rightarrow> Sale option" where
  "get_Sale h r = (case lookup h r of Some (SaleCell sale) \<Rightarrow> Some sale | _ \<Rightarrow> None)"

definition Map_set_h :: "heap \<Rightarrow> ref \<Rightarrow> string \<Rightarrow> number \<Rightarrow> heap option" where
  "Map_set_h h r k v = do { m \<leftarrow> get_Map h r; Some (h[r := MapCell (Map_set m k v)]) }"

text \<open>
  \<open>b.entries().reduce(f, init)\<close> in \<open>mergeCategoryTotals\<close>. The iterator of
  \<open>entries\<close> is live: every step reads the entry at its position from the Map as it
  is in the heap at that moment.
\<close>

function reduce_entries :: "heap \<Rightarrow> ref \<Rightarrow> ref \<Rightarrow> nat \<Rightarrow> heap option" where
  "reduce_entries h b result i =
     (case get_Map h b of
        None \<Rightarrow> None
      | Some entries \<Rightarrow>
          if i < length entries then
            (case get_Map h result of
               None \<Rightarrow> None
             | Some m \<Rightarrow>
                 reduce_entries
                   (h[result := MapCell (Map_set m (fst (entries ! i))
                                  (jadd (nullish (Map_get m (fst (entries ! i))) (Fin 0))
                                        (snd (entries ! i))))])
                   b result (Suc i))
          else Some h)"
  by pat_completeness auto

termination reduce_entries
proof (relation "measure (\<lambda>(h, b, result, i).
           (case get_Map h b of None \<Rightarrow> 0 | Some entries \<Rightarrow> length entries) - i)", goal_cases)
  case 1
  show ?case by simp
next
  case (2 h b result i entries m)
  have keys: "map fst (Map_set m' k v)
      = (if k \<in> set (map fst m') then map fst m' else map fst m' @ [k])"
    for m' :: "(string, number) Map" and k v
    by (induction m') force+
  have "fst (entries ! i) \<in> set (map fst entries)"
    using 2(2) by simp
  then have same: "length (Map_set entries (fst (entries ! i)) v) = length entries" for v
    using keys [of entries "fst (entries ! i)" v, THEN arg_cong, of length] by simp
  have upd: "get_Map (h[result := MapCell m']) b
      = (if b = result \<and> result < length h then Some m' else get_Map h b)" for m'
    by (simp add: get_Map_def lookup_def)
  have "result < length h"
    using 2(3) by (simp add: get_Map_def lookup_def split: if_splits)
  with 2 same show ?case by (auto simp: upd)
qed

declare reduce_entries.simps [simp del]

definition mergeCategoryTotals_h :: "heap \<Rightarrow> ref \<Rightarrow> ref \<Rightarrow> (heap \<times> ref) option" where
  "mergeCategoryTotals_h h a b = do {
     m \<leftarrow> get_Map h a;
     (h1, result) \<leftarrow> Some (alloc h (MapCell m));
     h2 \<leftarrow> reduce_entries h1 b result 0;
     Some (h2, result)
   }"

fun filter_paid :: "heap \<Rightarrow> ref list \<Rightarrow> ref list option" where
  "filter_paid h [] = Some []"
| "filter_paid h (r # rs) = do {
     ob \<leftarrow> get_Order h r;
     kept \<leftarrow> filter_paid h rs;
     Some (if o_status ob = Paid then r # kept else kept)
   }"

fun map_items :: "heap \<Rightarrow> ref list \<Rightarrow> (heap \<times> ref list) option" where
  "map_items h [] = Some (h, [])"
| "map_items h (r # rs) = do {
     it \<leftarrow> get_Item h r;
     (h1, sale) \<leftarrow> Some (alloc h (SaleCell \<lparr>sale_category = category it,
                                              total = jmul (qty it) (unitPrice it)\<rparr>));
     (h2, sales) \<leftarrow> map_items h1 rs;
     Some (h2, sale # sales)
   }"

fun flatMap_orders :: "heap \<Rightarrow> ref list \<Rightarrow> (heap \<times> ref list) option" where
  "flatMap_orders h [] = Some (h, [])"
| "flatMap_orders h (r # rs) = do {
     ob \<leftarrow> get_Order h r;
     its \<leftarrow> get_Array h (o_items ob);
     (h1, sales) \<leftarrow> map_items h its;
     (h2, mapped) \<leftarrow> Some (alloc h1 (ArrayCell sales));
     (h3, rest) \<leftarrow> flatMap_orders h2 rs;
     Some (h3, sales @ rest)
   }"

fun reduce_sales :: "heap \<Rightarrow> ref \<Rightarrow> ref list \<Rightarrow> heap option" where
  "reduce_sales h acc [] = Some h"
| "reduce_sales h acc (r # rs) = do {
     sale \<leftarrow> get_Sale h r;
     m \<leftarrow> get_Map h acc;
     h1 \<leftarrow> Map_set_h h acc (sale_category sale)
             (jadd (nullish (Map_get m (sale_category sale)) (Fin 0)) (total sale));
     reduce_sales h1 acc rs
   }"

definition processPageToSales_h :: "heap \<Rightarrow> ref \<Rightarrow> (heap \<times> ref) option" where
  "processPageToSales_h h page = do {
     orders \<leftarrow> get_Array h page;
     kept \<leftarrow> filter_paid h orders;
     (h1, filtered) \<leftarrow> Some (alloc h (ArrayCell kept));
     paid \<leftarrow> get_Array h1 filtered;
     (h2, sales) \<leftarrow> flatMap_orders h1 paid;
     (h3, flat) \<leftarrow> Some (alloc h2 (ArrayCell sales));
     (h4, acc) \<leftarrow> Some (alloc h3 (MapCell []));
     sale_refs \<leftarrow> get_Array h4 flat;
     h5 \<leftarrow> reduce_sales h4 acc sale_refs;
     Some (h5, acc)
   }"

definition read_items :: "heap \<Rightarrow> ref \<Rightarrow> LineItem list option" where
  "read_items h r = do { refs \<leftarrow> get_Array h r; those (map (get_Item h) refs) }"

definition read_order :: "heap \<Rightarrow> ref \<Rightarrow> Order option" where
  "read_order h r = do {
     ob \<leftarrow> get_Order h r;
     its \<leftarrow> read_items h (o_items ob);
     Some \<lparr>order_id = o_id ob, customerId = o_customerId ob, createdAt = o_createdAt ob,
           status = o_status ob, items = its\<rparr>
   }"

definition read_page :: "heap \<Rightarrow> ref \<Rightarrow> Order list option" where
  "read_page h r = do { refs \<leftarrow> get_Array h r; those (map (read_order h) refs) }"

text \<open>The two arrow functions of \<open>processPageToSales\<close> by name.\<close>

definition mk_sale :: "LineItem \<Rightarrow> Sale" where
  "mk_sale it = \<lparr>sale_category = category it, total = jmul (qty it) (unitPrice it)\<rparr>"

definition add_sale :: "(string, number) Map \<Rightarrow> Sale \<Rightarrow> (string, number) Map" where
  "add_sale acc sale = Map_set acc (sale_category sale)
                         (jadd (nullish (Map_get acc (sale_category sale)) (Fin 0)) (total sale))"

text \<open>A heap with a page of two orders (at 7) and a Map of totals (at 8).\<close>

definition example_heap :: heap where
  "example_heap =
    [ItemCell \<lparr>sku = ''A1'', qty = Fin 2, unitPrice = Fin 1200, category = ''books''\<rparr>,
     ItemCell \<lparr>sku = ''F4'', qty = Fin 3, unitPrice = Fin 500, category = ''food''\<rparr>,
     ArrayCell [0, 1],
     OrderCell \<lparr>o_id = ''o1'', o_customerId = ''c1'', o_createdAt = ''2025-08-01T10:00:00Z'',
                o_status = Paid, o_items = 2\<rparr>,
     ItemCell \<lparr>sku = ''X'', qty = Fin 10, unitPrice = Fin 100, category = ''food''\<rparr>,
     ArrayCell [4],
     OrderCell \<lparr>o_id = ''o3'', o_customerId = ''c3'', o_createdAt = ''2025-08-03T12:00:00Z'',
                o_status = Pending, o_items = 5\<rparr>,
     ArrayCell [3, 6],
     MapCell [(''books'', Fin 2400), (''tools'', Fin 9999)]]"

section \<open>The broadcaster and the restart cycle\<close>

text \<open>
  The server keeps the connected sockets in a \<open>Set\<close> (a list without repetitions, in
  insertion order, of socket identities) and the state of each socket beside it. Of a
  socket the model keeps its \<open>readyState\<close>, whether its \<open>send\<close> throws, and the
  messages that were sent to it without a throw. \<open>JSON.stringify\<close> is one-to-one on the
  messages, which stand for their own text; the wall-clock field \<open>at\<close> of an update is
  left out. A pending \<open>setTimeout\<close> is a pair of its delay in milliseconds and the
  function it will call.
\<close>

datatype readyState = CONNECTING | OPEN | CLOSING | CLOSED

datatype message = Hello string | TopCategories int "(string \<times> number) list"

record WebSocket =
  readyState :: readyState
  send_throws :: bool
  delivered :: "message list"

datatype handler = SafeStream

record server =
  clients :: "nat list"
  sockets :: "nat \<Rightarrow> WebSocket"
  timers :: "(nat \<times> handler) list"

text \<open>\<open>ws.send(json)\<close>: it throws, or the message goes out.\<close>

definition ws_send :: "WebSocket \<Rightarrow> message \<Rightarrow> error + WebSocket" where
  "ws_send ws json =
     (if send_throws ws then Inl (Thrown ''send'')
      else Inr (ws\<lparr>delivered := delivered ws @ [json]\<rparr>))"

text \<open>
  The body of the loop of \<open>broadcast\<close> for one socket, and the loop. The \<open>for ... of\<close>
  over the \<open>Set\<close> visits the sockets that are in it when the loop starts: the body
  deletes nothing but the socket it is visiting.
\<close>

definition broadcast_to :: "message \<Rightarrow> server \<Rightarrow> nat \<Rightarrow> server" where
  "broadcast_to json w c =
     (if readyState (sockets w c) = OPEN then
        (case ws_send (sockets w c) json of
           Inr ws' \<Rightarrow> w\<lparr>sockets := (sockets w)(c := ws')\<rparr>
         | Inl e \<Rightarrow> w\<lparr>clients := removeAll c (clients w)\<rparr>)
      else w)"

definition broadcast :: "message \<Rightarrow> server \<Rightarrow> server" where
  "broadcast data w = foldl (broadcast_to data) w (clients w)"

text \<open>The callback that \<open>safeStream\<close> hands to \<open>streamTopCategories\<close>.\<close>

definition onSnapshot :: "server callback" where
  "onSnapshot snapshot pageIndex w = (None, broadcast (TopCategories pageIndex snapshot) w)"

text \<open>
  \<open>safeStream\<close>: one run of the stream over the mock source with the limit 3. Both the
  normal end and the \<open>catch\<close> branch schedule \<open>safeStream\<close> again after 5000 ms.
  Nothing else happens to the server while the run lasts: no socket connects, closes or
  changes its state.
\<close>

definition safeStream :: "server \<Rightarrow> server" where
  "safeStream w =
     (case streamTopCategories fetchOrderPages (Fin 3) onSnapshot w of
        (Inr totals, w') \<Rightarrow> w'\<lparr>timers := timers w' @ [(5000, SafeStream)]\<rparr>
      | (Inl err, w') \<Rightarrow> w'\<lparr>timers := timers w' @ [(5000, SafeStream)]\<rparr>)"

text \<open>The event loop firing the oldest pending timer.\<close>

definition run_timer :: "server \<Rightarrow> server" where
  "run_timer w =
     (case timers w of
        [] \<Rightarrow> w
      | (delay, SafeStream) # pending \<Rightarrow> safeStream (w\<lparr>timers := pending\<rparr>))"

text \<open>Three open sockets, the second of which throws on \<open>send\<close>.\<close>

definition example_server :: server where
  "example_server =
     \<lparr>clients = [1, 2, 3],
      sockets = (\<lambda>c. \<lparr>readyState = OPEN, send_throws = (c = 2), delivered = []\<rparr>),
      timers = []\<rparr>"

text \<open>The three updates that one run over the mock source broadcasts.\<close>

definition cycle_updates :: "message list" where
  "cycle_updates =
     [TopCategories 0 [(''tools'', Fin 9999), (''books'', Fin 4900), (''food'', Fin 1500)],
      TopCategories 1 [(''tools'', Fin 14999), (''books'', Fin 4900), (''food'', Fin 3100)],
      TopCategories 2 [(''tools'', Fin 29999), (''books'', Fin 10300), (''food'', Fin 3100)]]"

text \<open>A socket that is connected, open and whose \<open>send\<close> works.\<close>

definition healthy :: "server \<Rightarrow> nat \<Rightarrow> bool" where
  "healthy w c \<longleftrightarrow> c \<in> set (clients w) \<and> distinct (clients w) \<and>
     readyState (sockets w c) = OPEN \<and> \<not> send_throws (sockets w c)"

section \<open>Predicates of the proofs\<close>

text \<open>
  A rational that a double holds exactly: an integer of at most 53 bits times a power
  of two between \<open>2 ^ -1074\<close> and \<open>2 ^ 971\<close>.
\<close>

definition repr :: "rat \<Rightarrow> bool" where
  "repr q \<longleftrightarrow> (\<exists>m e. q = of_int m * 2 powi e \<and> \<bar>m\<bar> < 2 ^ 53 \<and> - 1074 \<le> e \<and> e \<le> 971)"

text \<open>Totals that are doubles and not negative; \<open>NaN\<close> is not among them.\<close>

definition valid_totals :: "(string, number) Map \<Rightarrow> bool" where
  "valid_totals m \<longleftrightarrow> (\<forall>e \<in> set m. num_le (Fin 0) (snd e) \<and> is_double (snd e))"

section \<open>Properties\<close>

subsection \<open>Facts about the rounding of doubles\<close>

lemma p2_pos: "0 < (2::rat) powi e"
  by simp

lemma p2_le_iff: "(2::rat) powi a \<le> 2 powi b \<longleftrightarrow> a \<le> b"
proof
  assume "(2::rat) powi a \<le> 2 powi b"
  show "a \<le> b"
  proof (rule ccontr)
    assume "\<not> a \<le> b"
    then have "(2::rat) powi b < 2 powi a"
      by (intro power_int_strict_increasing) auto
    with \<open>(2::rat) powi a \<le> 2 powi b\<close> show False by simp
  qed
next
  assume "a \<le> b"
  then show "(2::rat) powi a \<le> 2 powi b"
    by (intro power_int_increasing) auto
qed

lemma p2_less_iff: "(2::rat) powi a < 2 powi b \<longleftrightarrow> a < b"
  using p2_le_iff [of b a] by (auto simp: not_le [symmetric])

lemma p2_add: "(2::rat) powi (a + b) = 2 powi a * 2 powi b"
  by (rule power_int_add) simp

lemma p2_diff: "(2::rat) powi (a - b) = 2 powi a / 2 powi b"
  by (rule power_int_diff) simp

lemma p2_nat: "0 \<le> a \<Longrightarrow> (2::rat) powi a = of_int (2 ^ nat a)"
  by (simp add: power_int_def)

lemma log2_floor_bounds:
  assumes "0 < x"
  shows "2 powi log2_floor x \<le> x" and "x < 2 powi (log2_floor x + 1)"
proof -
  obtain p q where pq: "quotient_of x = (p, q)" by (cases "quotient_of x")
  then have q: "0 < q" and x: "x = of_int p / of_int q"
    by (auto dest: quotient_of_denom_pos quotient_of_div)
  from assms x q have p: "0 < p" by (simp add: zero_less_divide_iff)
  define bp bq where "bp = bitlen p" and "bq = bitlen q"
  from bitlen_bounds [OF p] have "2 ^ nat (bp - 1) \<le> p" "p < 2 ^ nat bp"
    by (simp_all add: bp_def)
  moreover from p have "1 \<le> bp" unfolding bp_def using bitlen_eq_zero_iff [of p] bitlen_nonneg [of p] by linarith
  ultimately have P: "(2::rat) powi (bp - 1) \<le> of_int p" "of_int p < (2::rat) powi bp"
    by (simp_all add: p2_nat of_int_le_iff [symmetric] of_int_less_iff [symmetric] del: of_int_le_iff of_int_less_iff)
  from bitlen_bounds [OF q] have "2 ^ nat (bq - 1) \<le> q" "q < 2 ^ nat bq"
    by (simp_all add: bq_def)
  moreover from q have "1 \<le> bq" unfolding bq_def using bitlen_eq_zero_iff [of q] bitlen_nonneg [of q] by linarith
  ultimately have Q: "(2::rat) powi (bq - 1) \<le> of_int q" "of_int q < (2::rat) powi bq"
    by (simp_all add: p2_nat of_int_le_iff [symmetric] of_int_less_iff [symmetric] del: of_int_le_iff of_int_less_iff)
  have q': "0 < (of_int q :: rat)" using q by simp
  have lo: "2 powi (bp - bq - 1) < x"
  proof -
    have "2 powi (bp - bq - 1) * of_int q < (2::rat) powi (bp - bq - 1) * 2 powi bq"
      using Q(2) by (intro mult_strict_left_mono) simp_all
    also have "\<dots> = 2 powi (bp - 1)" by (simp add: p2_add [symmetric])
    also have "\<dots> \<le> of_int p" by (rule P(1))
    finally show ?thesis using q' by (simp add: x pos_less_divide_eq)
  qed
  have hi: "x < 2 powi (bp - bq + 1)"
  proof -
    have "of_int p < (2::rat) powi bp" by (rule P(2))
    also have "\<dots> = 2 powi (bp - bq + 1) * 2 powi (bq - 1)" by (simp add: p2_add [symmetric])
    also have "\<dots> \<le> 2 powi (bp - bq + 1) * of_int q"
      using Q(1) by (intro mult_left_mono) simp_all
    finally show ?thesis using q' by (simp add: x pos_divide_less_eq)
  qed
  have def: "log2_floor x = (if 2 powi (bp - bq) \<le> x then bp - bq else bp - bq - 1)"
    by (simp add: log2_floor_def pq bp_def bq_def Let_def)
  show "2 powi log2_floor x \<le> x"
    using lo by (simp add: def)
  show "x < 2 powi (log2_floor x + 1)"
    using hi by (simp add: def not_le)
qed

lemma log2_floor_unique:
  assumes "2 powi k \<le> x" and "x < 2 powi (k + 1)"
  shows "log2_floor x = k"
proof -
  have pos: "0 < x" using assms(1) p2_pos [of k] by linarith
  note b = log2_floor_bounds [OF pos]
  have "2 powi k < (2::rat) powi (log2_floor x + 1)" using assms(1) b(2) by linarith
  moreover have "2 powi log2_floor x < (2::rat) powi (k + 1)" using assms(2) b(1) by linarith
  ultimately show ?thesis by (simp add: p2_less_iff)
qed

lemma log2_floor_mono:
  assumes "0 < x" and "x \<le> y"
  shows "log2_floor x \<le> log2_floor y"
proof -
  have "0 < y" using assms by linarith
  from log2_floor_bounds(1) [OF assms(1)] log2_floor_bounds(2) [OF this] assms(2)
  have "2 powi log2_floor x < (2::rat) powi (log2_floor y + 1)" by linarith
  then show ?thesis by (simp add: p2_less_iff)
qed

lemma round_even_of_int: "round_even (of_int n) = n"
  by (simp add: round_even_def)

lemma round_even_bounds: "of_int (round_even x) \<le> x + 1 / 2" "x - 1 / 2 \<le> of_int (round_even x)"
  unfolding round_even_def Let_def by (auto; linarith)+

lemma round_even_floor: "\<lfloor>x\<rfloor> \<le> round_even x" "round_even x \<le> \<lfloor>x\<rfloor> + 1"
  by (simp_all add: round_even_def Let_def)

lemma round_even_mono:
  assumes "x \<le> y"
  shows "round_even x \<le> round_even y"
proof (cases "\<lfloor>x\<rfloor> = \<lfloor>y\<rfloor>")
  case True
  with assms show ?thesis
    by (auto simp: round_even_def Let_def)
next
  case False
  with assms have "\<lfloor>x\<rfloor> < \<lfloor>y\<rfloor>" using floor_mono [OF assms] by linarith
  with round_even_floor(2) [of x] round_even_floor(1) [of y] show ?thesis by linarith
qed

lemma round_even_nonneg: "0 \<le> x \<Longrightarrow> 0 \<le> round_even x"
  using round_even_mono [of 0 x] by (simp add: round_even_def)

lemma round_val_nonneg: "0 \<le> x \<Longrightarrow> 0 \<le> round_val x"
  by (simp add: round_val_def round_even_nonneg)

lemma round_val_mono:
  assumes "0 < x" and "x \<le> y"
  shows "round_val x \<le> round_val y"
proof -
  have y: "0 < y" using assms by linarith
  define kx ky where "kx = log2_floor x" and "ky = log2_floor y"
  define ex ey where "ex = ulp_exp x" and "ey = ulp_exp y"
  have exd: "ex = max (- 1074) (kx - 52)" and eyd: "ey = max (- 1074) (ky - 52)"
    by (simp_all add: ex_def ey_def ulp_exp_def kx_def ky_def)
  have k: "kx \<le> ky" unfolding kx_def ky_def using assms by (rule log2_floor_mono)
  then have e: "ex \<le> ey" by (simp add: exd eyd)
  have vx: "round_val x = of_int (round_even (x / 2 powi ex)) * 2 powi ex"
    by (simp add: round_val_def ex_def)
  have vy: "round_val y = of_int (round_even (y / 2 powi ey)) * 2 powi ey"
    by (simp add: round_val_def ey_def)
  show ?thesis
  proof (cases "ex = ey")
    case True
    have "x / 2 powi ey \<le> y / 2 powi ey"
      using assms(2) by (simp add: divide_right_mono)
    then have "round_even (x / 2 powi ey) \<le> round_even (y / 2 powi ey)"
      by (rule round_even_mono)
    then show ?thesis by (simp add: vx vy True)
  next
    case False
    with e have lt: "ex < ey" by simp
    then have ey52: "ey = ky - 52" and kxy: "kx + 1 \<le> ky" and exk: "ex \<le> ky"
      by (auto simp: exd eyd)
    have "x < 2 powi (kx + 1)" unfolding kx_def using assms(1) by (rule log2_floor_bounds)
    also have "\<dots> \<le> 2 powi ky" using kxy by (simp add: p2_le_iff)
    finally have "x / 2 powi ex \<le> 2 powi ky / 2 powi ex"
      by (simp add: divide_right_mono)
    also have "\<dots> = of_int (2 ^ nat (ky - ex))"
      using exk by (simp add: p2_diff [symmetric] p2_nat)
    finally have "round_even (x / 2 powi ex) \<le> 2 ^ nat (ky - ex)"
      using round_even_mono round_even_of_int by metis
    then have "of_int (round_even (x / 2 powi ex)) \<le> (of_int (2 ^ nat (ky - ex)) :: rat)"
      by (simp only: of_int_le_iff)
    then have "round_val x \<le> of_int (2 ^ nat (ky - ex)) * 2 powi ex"
      unfolding vx by (intro mult_right_mono) simp_all
    also have "\<dots> = 2 powi ky"
      using exk p2_nat [of "ky - ex"] p2_add [of "ky - ex" ex] by simp
    finally have left: "round_val x \<le> 2 powi ky" .
    have "2 powi ky \<le> y" unfolding ky_def using y by (rule log2_floor_bounds)
    then have "2 powi ky / 2 powi ey \<le> y / 2 powi ey"
      by (simp add: divide_right_mono)
    moreover have "2 powi ky / 2 powi ey = (of_int (2 ^ 52) :: rat)"
      using p2_diff [of ky ey] by (simp add: ey52)
    ultimately have "round_even (of_int (2 ^ 52)) \<le> round_even (y / 2 powi ey)"
      using round_even_mono by metis
    then have "2 ^ 52 \<le> round_even (y / 2 powi ey)"
      by (simp only: round_even_of_int)
    then have "(of_int (2 ^ 52) :: rat) \<le> of_int (round_even (y / 2 powi ey))"
      by (simp only: of_int_le_iff)
    then have "of_int (2 ^ 52) * 2 powi ey \<le> round_val y"
      unfolding vy by (intro mult_right_mono) simp_all
    moreover have "of_int (2 ^ 52) * 2 powi ey = (2::rat) powi ky"
      using p2_add [of 52 ey] by (simp add: ey52)
    ultimately have "2 powi ky \<le> round_val y" by simp
    with left show ?thesis by linarith
  qed
qed

lemma round_pos_mono:
  assumes "0 \<le> x" and "x \<le> y"
  shows "num_le (round_pos x) (round_pos y)"
proof (cases "x = 0")
  case True
  have "round_val 0 = 0" by (simp add: round_val_def round_even_def)
  moreover have "0 \<le> round_val y" using assms by (intro round_val_nonneg) simp
  ultimately show ?thesis using True by (simp add: round_pos_def)
next
  case False
  with assms have "0 < x" by simp
  from round_val_mono [OF this assms(2)] show ?thesis
    by (simp add: round_pos_def)
qed

lemma repr_neg: "repr q \<Longrightarrow> repr (- q)"
  unfolding repr_def
  by (elim exE, rule_tac x = "- m" in exI, rule_tac x = e in exI) simp

lemma round_val_zero: "round_val 0 = 0"
  by (simp add: round_val_def round_even_def)

lemma round_val_repr:
  assumes "0 \<le> x" and "round_val x < 2 powi 1024"
  shows "repr (round_val x)"
proof (cases "x = 0")
  case True
  have "(0::rat) = of_int 0 * 2 powi 0 \<and> \<bar>0::int\<bar> < 2 ^ 53 \<and> - 1074 \<le> (0::int) \<and> (0::int) \<le> 971"
    by simp
  then have "repr 0" unfolding repr_def by blast
  with True show ?thesis by (simp add: round_val_zero)
next
  case False
  with assms have x: "0 < x" by simp
  define k e m where "k = log2_floor x" and "e = ulp_exp x" and "m = round_even (x / 2 powi e)"
  have ed: "e = max (- 1074) (k - 52)" by (simp add: e_def ulp_exp_def k_def)
  have v: "round_val x = of_int m * 2 powi e" by (simp add: round_val_def m_def e_def)
  have m0: "0 \<le> m" unfolding m_def using x by (intro round_even_nonneg) simp
  have "x < 2 powi (k + 1)" unfolding k_def using x by (rule log2_floor_bounds)
  also have "\<dots> \<le> 2 powi (e + 53)" using ed by (simp add: p2_le_iff)
  finally have "x / 2 powi e \<le> 2 powi (e + 53) / 2 powi e"
    by (simp add: divide_right_mono)
  also have "\<dots> = of_int (2 ^ 53)"
    using p2_diff [of "e + 53" e] by simp
  finally have "round_even (x / 2 powi e) \<le> round_even (of_int (2 ^ 53))"
    by (rule round_even_mono)
  then have m53: "m \<le> 2 ^ 53" by (simp only: round_even_of_int m_def)
  show ?thesis
  proof (cases "m = 2 ^ 53")
    case True
    then have val: "round_val x = 2 powi (e + 53)"
      using p2_add [of 53 e] by (simp add: v add.commute)
    from assms(2) have "(2::rat) powi (e + 53) < 2 powi 1024" by (simp only: val)
    then have "e + 53 < 1024" by (simp only: p2_less_iff)
    moreover have "round_val x = of_int (2 ^ 52) * 2 powi (e + 1)"
      using p2_add [of 52 "e + 1"] by (simp add: val add.commute add.left_commute)
    moreover have "- 1074 \<le> e + 1" using ed by simp
    ultimately have "round_val x = of_int (2 ^ 52) * 2 powi (e + 1) \<and> \<bar>2 ^ 52 :: int\<bar> < 2 ^ 53
        \<and> - 1074 \<le> e + 1 \<and> e + 1 \<le> 971"
      by simp
    then show ?thesis unfolding repr_def by blast
  next
    case False
    with m53 m0 have mlt: "\<bar>m\<bar> < 2 ^ 53" by simp
    have "e \<le> 971"
    proof (rule ccontr)
      assume "\<not> e \<le> 971"
      then have big: "972 \<le> e" by simp
      with ed have ek: "e = k - 52" by simp
      have "2 powi k \<le> x" unfolding k_def using x by (rule log2_floor_bounds)
      then have "2 powi k / 2 powi e \<le> x / 2 powi e" by (simp add: divide_right_mono)
      moreover have "2 powi k / 2 powi e = (of_int (2 ^ 52) :: rat)"
        using p2_diff [of k e] by (simp add: ek)
      ultimately have "round_even (of_int (2 ^ 52)) \<le> round_even (x / 2 powi e)"
        using round_even_mono by metis
      then have "2 ^ 52 \<le> m" by (simp only: round_even_of_int m_def)
      then have "(of_int (2 ^ 52) :: rat) \<le> of_int m" by (simp only: of_int_le_iff)
      then have "of_int (2 ^ 52) * 2 powi e \<le> round_val x"
        unfolding v by (intro mult_right_mono) simp_all
      moreover have "(1024::int) \<le> 52 + e" using big by simp
      then have "(2::rat) powi 1024 \<le> 2 powi (52 + e)" by (simp only: p2_le_iff)
      moreover have "(2::rat) powi (52 + e) = of_int (2 ^ 52) * 2 powi e"
        using p2_add [of 52 e] by simp
      ultimately show False using assms(2) by linarith
    qed
    with mlt ed v have "round_val x = of_int m * 2 powi e \<and> \<bar>m\<bar> < 2 ^ 53
        \<and> - 1074 \<le> e \<and> e \<le> 971"
      by simp
    then show ?thesis unfolding repr_def by blast
  qed
qed

lemma round_val_fix:
  assumes "repr y" and "0 \<le> y"
  shows "round_val y = y" and "y < 2 powi 1024"
proof -
  from assms(1) obtain m e' where
    y: "y = of_int m * 2 powi e'" and m: "\<bar>m\<bar> < 2 ^ 53" and e': "- 1074 \<le> e'" "e' \<le> 971"
    unfolding repr_def by blast
  have m0: "0 \<le> m"
  proof (rule ccontr)
    assume "\<not> 0 \<le> m"
    then have "(of_int m :: rat) < 0" by simp
    then have "of_int m * (2::rat) powi e' < 0" by (simp add: mult_less_0_iff)
    with y assms(2) show False by simp
  qed
  have mlt: "(of_int m :: rat) < of_int (2 ^ 53)" using m m0 by simp
  have "y < of_int (2 ^ 53) * 2 powi e'"
    unfolding y using mlt by (intro mult_strict_right_mono) simp_all
  also have "\<dots> = 2 powi (53 + e')" using p2_add [of 53 e'] by simp
  finally have ylt: "y < 2 powi (53 + e')" .
  also have "\<dots> \<le> 2 powi 1024"
  proof -
    have "53 + e' \<le> 1024" using e' by simp
    then show ?thesis by (simp only: p2_le_iff)
  qed
  finally show "y < 2 powi 1024" .
  show "round_val y = y"
  proof (cases "y = 0")
    case True
    then show ?thesis by (simp add: round_val_zero)
  next
    case False
    with assms(2) have pos: "0 < y" by simp
    define k e where "k = log2_floor y" and "e = ulp_exp y"
    have ed: "e = max (- 1074) (k - 52)" by (simp add: e_def ulp_exp_def k_def)
    have "2 powi k \<le> y" unfolding k_def using pos by (rule log2_floor_bounds)
    with ylt have "(2::rat) powi k < 2 powi (53 + e')" by linarith
    then have "k < 53 + e'" by (simp only: p2_less_iff)
    with e' ed have le: "e \<le> e'" by simp
    have "y / 2 powi e = of_int m * (2 powi e' / 2 powi e)" by (simp add: y)
    also have "2 powi e' / 2 powi e = (of_int (2 ^ nat (e' - e)) :: rat)"
      using le p2_diff [of e' e] p2_nat [of "e' - e"] by simp
    finally have "y / 2 powi e = of_int (m * 2 ^ nat (e' - e))" by simp
    then have "round_even (y / 2 powi e) = m * 2 ^ nat (e' - e)"
      by (simp only: round_even_of_int)
    then have "round_val y = of_int (m * 2 ^ nat (e' - e)) * 2 powi e"
      by (simp add: round_val_def e_def)
    also have "\<dots> = of_int m * (of_int (2 ^ nat (e' - e)) * 2 powi e)" by simp
    also have "of_int (2 ^ nat (e' - e)) * 2 powi e = (2::rat) powi e'"
      using le p2_nat [of "e' - e"] p2_add [of "e' - e" e] by simp
    finally show ?thesis by (simp add: y)
  qed
qed

lemma repr_grid:
  assumes "repr q"
  shows "\<exists>n. q = of_int n * 2 powi (- 1074)"
proof -
  from assms obtain m e where q: "q = of_int m * 2 powi e" and e: "- 1074 \<le> e"
    unfolding repr_def by blast
  have "(2::rat) powi e = of_int (2 ^ nat (e + 1074)) * 2 powi (- 1074)"
    using e p2_nat [of "e + 1074"] p2_add [of "e + 1074" "- 1074"] by simp
  then have "q = of_int (m * 2 ^ nat (e + 1074)) * 2 powi (- 1074)"
    by (simp add: q)
  then show ?thesis by blast
qed

lemma round_pos_cases:
  assumes "0 \<le> x"
  shows "round_pos x = PosInf \<or> (\<exists>v. round_pos x = Fin v \<and> 0 \<le> v \<and> repr v)"
proof (cases "2 powi 1024 \<le> round_val x")
  case True
  then show ?thesis by (simp add: round_pos_def)
next
  case False
  then have "round_val x < 2 powi 1024" by simp
  from round_val_repr [OF assms this] round_val_nonneg [OF assms] False
  show ?thesis by (simp add: round_pos_def)
qed

lemma round_pos_fix: "repr y \<Longrightarrow> 0 \<le> y \<Longrightarrow> round_pos y = Fin y"
  using round_val_fix [of y] by (simp add: round_pos_def)

lemma negate_negate: "negate (negate x) = x"
  by (cases x) simp_all

lemma num_le_negate: "num_le (negate x) (negate y) = num_le y x"
  by (cases x; cases y) simp_all

lemma round_double_mono:
  assumes "x \<le> y"
  shows "num_le (round_double x) (round_double y)"
proof -
  consider "0 \<le> x" | "x < 0" "y < 0" | "x < 0" "0 \<le> y" by linarith
  then show ?thesis
  proof cases
    case 1
    with assms have "0 \<le> y" by simp
    with 1 round_pos_mono [OF 1 assms] show ?thesis by (simp add: round_double_def)
  next
    case 2
    have "num_le (round_pos (- y)) (round_pos (- x))"
      using 2 assms by (intro round_pos_mono) simp_all
    with 2 show ?thesis by (simp add: round_double_def num_le_negate)
  next
    case 3
    have a: "num_le (negate (round_pos (- x))) (Fin 0)"
      using 3(1) round_pos_cases [of "- x"] by auto
    have b: "num_le (Fin 0) (round_pos y)"
      using 3(2) round_pos_cases [of y] by auto
    from a b have "num_le (negate (round_pos (- x))) (round_pos y)"
      by (cases "round_pos (- x)"; cases "round_pos y") simp_all
    with 3 show ?thesis by (simp add: round_double_def)
  qed
qed

lemma round_double_repr: "round_double x = Fin y \<Longrightarrow> repr y"
proof (cases "x < 0")
  case True
  assume "round_double x = Fin y"
  with True have "negate (round_pos (- x)) = Fin y" by (simp add: round_double_def)
  then have "round_pos (- x) = Fin (- y)" by (cases "round_pos (- x)") simp_all
  moreover from True have "0 \<le> - x" by simp
  ultimately have "repr (- y)" using round_pos_cases [of "- x"] by auto
  then show ?thesis using repr_neg [of "- y"] by simp
next
  case False
  assume "round_double x = Fin y"
  with False have "round_pos x = Fin y" by (simp add: round_double_def)
  moreover from False have "0 \<le> x" by simp
  ultimately show ?thesis using round_pos_cases [of x] by auto
qed

lemma round_double_fix: "repr y \<Longrightarrow> round_double y = Fin y"
proof (cases "y < 0")
  case True
  assume "repr y"
  then have "repr (- y)" by (rule repr_neg)
  with True have "round_pos (- y) = Fin (- y)" by (intro round_pos_fix) simp_all
  with True show ?thesis by (simp add: round_double_def)
next
  case False
  assume "repr y"
  with False show ?thesis by (simp add: round_double_def round_pos_fix)
qed

lemma is_double_round: "is_double (round_double x)"
proof (cases "round_double x")
  case (Fin y)
  then have "repr y" by (rule round_double_repr)
  then show ?thesis by (simp add: Fin round_double_fix)
qed simp_all

lemma is_double_Fin_repr: "is_double (Fin q) \<longleftrightarrow> repr q"
  using round_double_repr [of q q] round_double_fix [of q] by auto

lemma round_double_sign:
  assumes "is_double (Fin a)" and "is_double (Fin b)"
  shows "num_le (round_double (b - a)) (Fin 0) \<longleftrightarrow> b \<le> a"
proof
  assume "b \<le> a"
  then have "b - a \<le> 0" by simp
  from round_double_mono [OF this] show "num_le (round_double (b - a)) (Fin 0)"
    by (simp add: round_double_def round_pos_def round_val_zero)
next
  assume le: "num_le (round_double (b - a)) (Fin 0)"
  show "b \<le> a"
  proof (rule ccontr)
    assume "\<not> b \<le> a"
    then have pos: "0 < b - a" by simp
    from assms obtain m n where "a = of_int m * 2 powi (- 1074)" "b = of_int n * 2 powi (- 1074)"
      using repr_grid by (metis is_double_Fin_repr)
    then have d: "b - a = of_int (n - m) * 2 powi (- 1074)" by (simp add: algebra_simps)
    with pos have "0 < (of_int (n - m) :: rat)" by (simp add: zero_less_mult_iff)
    then have "1 \<le> n - m" by simp
    then have "(1::rat) \<le> of_int (n - m)" by (simp only: of_int_le_iff [symmetric] of_int_1)
    then have "1 * 2 powi (- 1074) \<le> b - a"
      unfolding d by (intro mult_right_mono) simp_all
    then have tiny: "2 powi (- 1074) \<le> b - a" by simp
    have "repr (2 powi (- 1074))"
    proof -
      have "(2::rat) powi (- 1074) = of_int 1 * 2 powi (- 1074) \<and> \<bar>1::int\<bar> < 2 ^ 53
          \<and> - 1074 \<le> (- 1074 :: int) \<and> (- 1074 :: int) \<le> 971"
        by simp
      then show ?thesis unfolding repr_def by blast
    qed
    then have "round_double (2 powi (- 1074)) = Fin (2 powi (- 1074))" by (rule round_double_fix)
    with round_double_mono [OF tiny] have "num_le (Fin (2 powi (- 1074))) (round_double (b - a))"
      by simp
    with le have "(2::rat) powi (- 1074) \<le> 0"
      by (cases "round_double (b - a)") simp_all
    with p2_pos [of "- 1074"] show False by linarith
  qed
qed

lemma round_double_safe:
  assumes "q \<in> \<int>" and "\<bar>q\<bar> < 2 ^ 53"
  shows "round_double q = Fin q"
proof -
  from assms(1) obtain n where q: "q = of_int n" by (auto elim: Ints_cases)
  with assms(2) have "\<bar>of_int n :: rat\<bar> < of_int (2 ^ 53)" by simp
  then have "\<bar>n\<bar> < 2 ^ 53" by (simp only: of_int_abs [symmetric] of_int_less_iff)
  then have "q = of_int n * 2 powi 0 \<and> \<bar>n\<bar> < 2 ^ 53 \<and> - 1074 \<le> (0::int) \<and> (0::int) \<le> 971"
    by (simp add: q)
  then have "repr q" unfolding repr_def by blast
  then show ?thesis by (rule round_double_fix)
qed

lemma num_le_refl: "x \<noteq> NaN \<Longrightarrow> num_le x x"
  by (cases x) simp_all

lemma num_le_trans: "num_le x y \<Longrightarrow> num_le y z \<Longrightarrow> num_le x z"
  by (cases x; cases y; cases z) simp_all

lemma num_le_total: "x \<noteq> NaN \<Longrightarrow> y \<noteq> NaN \<Longrightarrow> num_le x y \<or> num_le y x"
  by (cases x; cases y) auto

lemma round_double_zero: "round_double 0 = Fin 0"
  by (simp add: round_double_def round_pos_def round_val_zero)

lemma round_double_nonneg: "0 \<le> x \<Longrightarrow> num_le (Fin 0) (round_double x)"
  using round_double_mono [of 0 x] by (simp add: round_double_zero)

text \<open>Adding a number that is not negative to one that is not negative.\<close>

lemma jadd_nonneg:
  assumes "num_le (Fin 0) t" and "is_double t" and "num_le (Fin 0) p"
  shows "num_le t (jadd t p)" and "num_le (Fin 0) (jadd t p)" and "is_double (jadd t p)"
proof -
  show "num_le t (jadd t p)"
  proof (cases t)
    case (Fin a)
    show ?thesis
    proof (cases p)
      case p: (Fin b)
      with assms(3) have "a \<le> a + b" by simp
      from round_double_mono [OF this] assms(2) show ?thesis by (simp add: Fin p)
    qed (use assms Fin in simp_all)
  qed (use assms in \<open>cases p; simp_all\<close>)+
  show "num_le (Fin 0) (jadd t p)"
  proof (cases t)
    case (Fin a)
    show ?thesis
    proof (cases p)
      case p: (Fin b)
      with assms(1,3) Fin have "0 \<le> a + b" by simp
      from round_double_nonneg [OF this] show ?thesis by (simp add: Fin p)
    qed (use assms Fin in simp_all)
  qed (use assms in \<open>cases p; simp_all\<close>)+
  show "is_double (jadd t p)"
    by (cases t; cases p) (simp_all add: is_double_round)
qed

lemma jmul_nonneg_finite:
  "num_le (Fin 0) (Fin a) \<Longrightarrow> num_le (Fin 0) (Fin b) \<Longrightarrow>
   num_le (Fin 0) (jmul (Fin a) (Fin b)) \<and> is_double (jmul (Fin a) (Fin b))"
  by (simp add: round_double_nonneg is_double_round)

text \<open>The comparator of \<open>topNFromMap\<close> on numbers other than \<open>NaN\<close>.\<close>

lemma compare_totals:
  assumes "x \<noteq> NaN" "y \<noteq> NaN" "is_double x" "is_double y"
  shows "num_le (SortCompare (\<lambda>a b. jsub (snd b) (snd a)) (k, x) (k', y)) (Fin 0)
           \<longleftrightarrow> num_le y x"
proof (cases x)
  case x: (Fin a)
  show ?thesis
  proof (cases y)
    case y: (Fin b)
    have "round_double (b - a) \<noteq> NaN"
      using is_double_round [of "b - a"] round_double_mono [of "b - a" "b - a"]
      by (cases "round_double (b - a)") simp_all
    with round_double_sign [of a b] assms show ?thesis
      by (simp add: SortCompare_def jsub_def x y)
  qed (use assms x in \<open>simp_all add: SortCompare_def jsub_def\<close>)
qed (use assms in \<open>cases y; simp_all add: SortCompare_def jsub_def\<close>)+

subsection \<open>Facts about \<open>Map\<close>\<close>

lemma Map_get_None_iff: "Map_get m k = None \<longleftrightarrow> k \<notin> set (map fst m)"
  by (induction m) (auto split: if_splits)

lemma Map_get_Some_mem: "Map_get m k = Some v \<Longrightarrow> (k, v) \<in> set m"
  by (induction m) (auto split: if_splits)

lemma Map_get_set: "Map_get (Map_set m k v) k' = (if k' = k then Some v else Map_get m k')"
  by (induction m) auto

lemma keys_Map_set:
  "map fst (Map_set m k v) = (if k \<in> set (map fst m) then map fst m else map fst m @ [k])"
  by (induction m) force+

lemma set_Map_set_subset: "set (Map_set m k v) \<subseteq> insert (k, v) (set m)"
  by (induction m) (auto split: if_splits)

lemma Map_ok_set: "Map_ok m \<Longrightarrow> Map_ok (Map_set m k v)"
  by (simp add: Map_ok_def keys_Map_set)

lemma Map_ok_card: "Map_ok m \<Longrightarrow> card (set (map fst m)) = length m"
  using distinct_card [of "map fst m"] by (simp add: Map_ok_def)

subsection \<open>Facts about merging\<close>

lemma merge_Nil: "mergeCategoryTotals a [] = a"
  by (simp add: mergeCategoryTotals_def)

lemma merge_Cons:
  "mergeCategoryTotals a ((k, t) # b) =
     mergeCategoryTotals (Map_set a k (jadd (nullish (Map_get a k) (Fin 0)) t)) b"
  by (simp add: mergeCategoryTotals_def)

lemma Map_get_merge:
  "Map_ok b \<Longrightarrow> Map_get (mergeCategoryTotals a b) k =
     (case Map_get b k of None \<Rightarrow> Map_get a k
      | Some t \<Rightarrow> Some (jadd (nullish (Map_get a k) (Fin 0)) t))"
proof (induction b arbitrary: a)
  case Nil
  then show ?case by (simp add: merge_Nil)
next
  case (Cons p b)
  obtain k0 t0 where p: "p = (k0, t0)" by (cases p)
  from Cons.prems p have ok: "Map_ok b" and fresh: "k0 \<notin> set (map fst b)"
    by (auto simp: Map_ok_def)
  from fresh have none: "Map_get b k0 = None" by (simp add: Map_get_None_iff)
  show ?case
    using Cons.IH [OF ok] none
    by (auto simp: p merge_Cons Map_get_set split: option.splits)
qed

lemma Map_ok_merge: "Map_ok a \<Longrightarrow> Map_ok (mergeCategoryTotals a b)"
proof (induction b arbitrary: a)
  case Nil
  then show ?case by (simp add: merge_Nil)
next
  case (Cons p b)
  then show ?case by (cases p) (simp add: merge_Cons Map_ok_set)
qed

subsection \<open>Facts about sorting and \<open>topNFromMap\<close>\<close>

lemma set_insert_sorted: "set (insert_sorted cmp x ys) = insert x (set ys)"
  by (induction ys) auto

lemma length_insert_sorted: "length (insert_sorted cmp x ys) = Suc (length ys)"
  by (induction ys) auto

lemma set_toSorted: "set (toSorted cmp xs) = set xs"
  by (induction xs) (simp_all add: toSorted_def set_insert_sorted)

lemma length_toSorted: "length (toSorted cmp xs) = length xs"
  by (induction xs) (simp_all add: toSorted_def length_insert_sorted)

lemma sorted_insert_sorted:
  fixes x :: "'k \<times> number"
  assumes "snd x \<noteq> NaN" "is_double (snd x)"
    and "\<forall>e \<in> set ys. snd e \<noteq> NaN \<and> is_double (snd e)"
    and "sorted_wrt (\<lambda>a b. num_le (snd b) (snd a)) ys"
  shows "sorted_wrt (\<lambda>a b. num_le (snd b) (snd a))
           (insert_sorted (\<lambda>a b. jsub (snd b) (snd a)) x ys)"
  using assms(3,4)
proof (induction ys)
  case Nil
  show ?case by simp
next
  case (Cons y ys)
  have cmp: "num_le (SortCompare (\<lambda>a b. jsub (snd b) (snd a)) x y) (Fin 0)
      \<longleftrightarrow> num_le (snd y) (snd x)"
    using compare_totals [of "snd x" "snd y" "fst x" "fst y"] assms(1,2) Cons.prems(1)
    by simp
  show ?case
  proof (cases "num_le (snd y) (snd x)")
    case True
    have "num_le (snd z) (snd x)" if "z \<in> set ys" for z
      using that Cons.prems(2) True num_le_trans [of "snd z" "snd y" "snd x"] by auto
    with True Cons.prems(2) show ?thesis by (simp add: cmp)
  next
    case False
    with num_le_total [of "snd x" "snd y"] assms(1) Cons.prems(1)
    have "num_le (snd x) (snd y)" by auto
    moreover have "sorted_wrt (\<lambda>a b. num_le (snd b) (snd a))
        (insert_sorted (\<lambda>a b. jsub (snd b) (snd a)) x ys)"
      using Cons.IH Cons.prems by simp
    ultimately show ?thesis
      using False Cons.prems(2) by (auto simp: cmp set_insert_sorted)
  qed
qed

lemma sorted_toSorted:
  fixes xs :: "('k \<times> number) list"
  assumes "\<forall>e \<in> set xs. snd e \<noteq> NaN \<and> is_double (snd e)"
  shows "sorted_wrt (\<lambda>a b. num_le (snd b) (snd a)) (toSorted (\<lambda>a b. jsub (snd b) (snd a)) xs)"
  using assms
proof (induction xs)
  case Nil
  show ?case by (simp add: toSorted_def)
next
  case (Cons x xs)
  have "toSorted (\<lambda>a b. jsub (snd b) (snd a)) (x # xs)
      = insert_sorted (\<lambda>a b. jsub (snd b) (snd a)) x (toSorted (\<lambda>a b. jsub (snd b) (snd a)) xs)"
    by (simp add: toSorted_def)
  moreover have "sorted_wrt (\<lambda>a b. num_le (snd b) (snd a))
      (insert_sorted (\<lambda>a b. jsub (snd b) (snd a)) x (toSorted (\<lambda>a b. jsub (snd b) (snd a)) xs))"
    using Cons by (intro sorted_insert_sorted) (simp_all add: set_toSorted)
  ultimately show ?case by simp
qed

lemma topNFromMap_Inr:
  "topNFromMap m n = Inr snap \<Longrightarrow>
     \<exists>j. snap = take j (toSorted (\<lambda>a b. jsub (snd b) (snd a)) m)"
  by (cases n) (auto simp: topNFromMap_def Iterator_take_def split: if_splits intro: exI [of _ "length m"] simp: length_toSorted)

subsection \<open>Facts about the aggregation of a page\<close>

lemma valid_totals_Nil: "valid_totals []"
  by (simp add: valid_totals_def)

lemma valid_nullish:
  "valid_totals m \<Longrightarrow>
   num_le (Fin 0) (nullish (Map_get m k) (Fin 0)) \<and> is_double (nullish (Map_get m k) (Fin 0))"
  by (cases "Map_get m k")
     (auto simp: valid_totals_def round_double_zero dest!: Map_get_Some_mem)

lemma valid_totals_add:
  assumes "valid_totals m" and "num_le (Fin 0) p"
  shows "valid_totals (Map_set m k (jadd (nullish (Map_get m k) (Fin 0)) p))"
proof -
  from valid_nullish [OF assms(1), of k] assms(2)
  have "num_le (Fin 0) (jadd (nullish (Map_get m k) (Fin 0)) p)"
    and "is_double (jadd (nullish (Map_get m k) (Fin 0)) p)"
    by (auto intro: jadd_nonneg)
  with assms(1) set_Map_set_subset [of m k "jadd (nullish (Map_get m k) (Fin 0)) p"]
  show ?thesis unfolding valid_totals_def by fastforce
qed

lemma fold_sales_invariant:
  "Map_ok acc \<Longrightarrow> valid_totals acc \<Longrightarrow> \<forall>sale \<in> set sales. num_le (Fin 0) (total sale) \<Longrightarrow>
   Map_ok (foldl (\<lambda>acc sale. Map_set acc (sale_category sale)
             (jadd (nullish (Map_get acc (sale_category sale)) (Fin 0)) (total sale))) acc sales) \<and>
   valid_totals (foldl (\<lambda>acc sale. Map_set acc (sale_category sale)
             (jadd (nullish (Map_get acc (sale_category sale)) (Fin 0)) (total sale))) acc sales)"
proof (induction sales arbitrary: acc)
  case Nil
  then show ?case by simp
next
  case (Cons sale sales)
  let ?acc = "Map_set acc (sale_category sale)
                (jadd (nullish (Map_get acc (sale_category sale)) (Fin 0)) (total sale))"
  have ok: "Map_ok ?acc" using Cons.prems(1) by (rule Map_ok_set)
  have valid: "valid_totals ?acc" using Cons.prems(2,3) by (intro valid_totals_add) simp_all
  from Cons.prems(3) have rest: "\<forall>sale \<in> set sales. num_le (Fin 0) (total sale)" by simp
  from Cons.IH [OF ok valid rest] show ?case by simp
qed

lemma Map_ok_processPageToSales: "Map_ok (processPageToSales page)"
proof -
  have "Map_ok (foldl (\<lambda>acc sale. Map_set acc (sale_category sale)
             (jadd (nullish (Map_get acc (sale_category sale)) (Fin 0)) (total sale))) acc sales)"
    if "Map_ok acc" for acc and sales :: "Sale list"
    using that by (induction sales arbitrary: acc) (simp_all add: Map_ok_set)
  then show ?thesis by (simp add: processPageToSales_def Map_ok_def)
qed

lemma jmul_nonneg:
  assumes "\<not> (x = PosInf \<and> y = Fin 0)" "\<not> (x = Fin 0 \<and> y = PosInf)"
    and "num_le (Fin 0) x" "num_le (Fin 0) y"
  shows "num_le (Fin 0) (jmul x y)"
  using assms by (cases x; cases y) (auto simp: round_double_nonneg)

lemma valid_processPageToSales:
  assumes "nonneg_page page" and "no_zero_times_infinity page"
  shows "valid_totals (processPageToSales page)"
proof -
  define sales where "sales = concat (map (\<lambda>ord. map (\<lambda>it. \<lparr>sale_category = category it,
            total = jmul (qty it) (unitPrice it)\<rparr>) (items ord))
          (filter (\<lambda>ord. status ord = Paid) page))"
  have "\<forall>sale \<in> set sales. num_le (Fin 0) (total sale)"
    using assms
    by (auto simp: nonneg_page_def no_zero_times_infinity_def sales_def intro!: jmul_nonneg)
  moreover have "Map_ok ([] :: (string, number) Map)" by (simp add: Map_ok_def)
  ultimately show ?thesis
    unfolding processPageToSales_def sales_def [symmetric]
    using fold_sales_invariant [of "[]" sales] valid_totals_Nil by blast
qed

lemma merge_monotone:
  assumes "Map_ok b" and "valid_totals b" and "valid_totals a"
  shows "num_le (total_of a c) (total_of (mergeCategoryTotals a b) c)"
    and "Map_get a c = Some v \<Longrightarrow>
           \<exists>v'. Map_get (mergeCategoryTotals a b) c = Some v' \<and> num_le v v'"
proof -
  have nonneg: "num_le (Fin 0) t" if "Map_get b c = Some t" for t
    using Map_get_Some_mem [OF that] assms(2) by (auto simp: valid_totals_def)
  note old = valid_nullish [OF assms(3), of c]
  have same: "num_le (nullish (Map_get a c) (Fin 0)) (nullish (Map_get a c) (Fin 0))"
    using old by (intro num_le_refl) auto
  show "num_le (total_of a c) (total_of (mergeCategoryTotals a b) c)"
    using nonneg old same
    by (cases "Map_get a c")
       (auto simp: total_of_def Map_get_merge [OF assms(1)] jadd_nonneg split: option.splits)
  show "\<exists>v'. Map_get (mergeCategoryTotals a b) c = Some v' \<and> num_le v v'"
    if "Map_get a c = Some v"
    using nonneg that old same
    by (auto simp: Map_get_merge [OF assms(1)] jadd_nonneg split: option.splits)
qed

lemma valid_totals_merge:
  assumes "valid_totals a" and "valid_totals b"
  shows "valid_totals (mergeCategoryTotals a b)"
  using assms
proof (induction b arbitrary: a)
  case Nil
  then show ?case by (simp add: merge_Nil)
next
  case (Cons p b)
  obtain k t where p: "p = (k, t)" by (cases p)
  from Cons.prems(2) p have t: "num_le (Fin 0) t" and b: "valid_totals b"
    by (auto simp: valid_totals_def)
  show ?case
    unfolding p merge_Cons
    by (rule Cons.IH [OF valid_totals_add [OF Cons.prems(1) t] b])
qed

lemma runningTotals_after_Suc:
  "k < length pages \<Longrightarrow>
   runningTotals_after (take (Suc k) pages)
     = page_step (runningTotals_after (take k pages)) (pages ! k)"
  by (simp add: runningTotals_after_def take_Suc_conv_app_nth)

lemma Map_ok_running: "Map_ok r \<Longrightarrow> Map_ok (foldl page_step r pages)"
  by (induction pages arbitrary: r) (simp_all add: page_step_def Map_ok_merge)

lemma valid_running:
  "valid_totals r \<Longrightarrow> \<forall>page \<in> set pages. nonneg_page page \<and> no_zero_times_infinity page \<Longrightarrow>
   valid_totals (foldl page_step r pages)"
  by (induction pages arbitrary: r)
     (simp_all add: page_step_def valid_totals_merge valid_processPageToSales)

subsection \<open>Facts about the driver loop\<close>

lemma pure_source_simps:
  "pure_source [] = []"
  "pure_source (p # pulls) = (\<lambda>s. (p, s)) # pure_source pulls"
  by (simp_all add: pure_source_def)

lemma yielded_map_Yield: "yielded (map Yield ps) = ps"
  by (induction ps) auto

lemma logged_apply:
  "logged cb snap i (l, s) = (fst (cb snap i s), (l @ [(snap, i)], snd (cb snap i s)))"
  by (simp add: logged_def split: prod.splits)

lemma traced_apply:
  "traced cb snap i (ev, s) = (fst (cb snap i s), (ev @ [Called snap i], snd (cb snap i s)))"
  by (simp add: traced_def split: prod.splits)

lemma traced_pull_apply:
  "traced_pull next (ev, s) = (fst (next s), (ev @ [Pulled (fst (next s))], snd (next s)))"
  by (simp add: traced_pull_def split: prod.splits)

lemma stream_loop_logged:
  "stream_loop (logged cb) limit r i (pure_source pulls) (l, s) = (res, (l', s')) \<Longrightarrow>
   \<exists>calls. l' = l @ calls \<and> length calls \<le> length (yielded pulls) \<and>
     (\<forall>k<length calls. snd (calls ! k) = i + int k \<and>
        topNFromMap (foldl page_step r (take (Suc k) (yielded pulls))) limit
          = Inr (fst (calls ! k))) \<and>
     (\<forall>r'. res = Inr r' \<longrightarrow> pulls = map Yield (yielded pulls) \<and>
        length calls = length pulls \<and> r' = foldl page_step r (yielded pulls)) \<and>
     s' = foldl (\<lambda>st c. snd (cb (fst c) (snd c) st)) s calls"
proof (induction pulls arbitrary: r i l s)
  case Nil
  then show ?case by (auto simp: pure_source_simps)
next
  case (Cons p pulls)
  show ?case
  proof (cases p)
    case (Throws e)
    with Cons.prems show ?thesis by (auto simp: pure_source_simps)
  next
    case (Yield page)
    define r1 where "r1 = page_step r page"
    show ?thesis
    proof (cases "topNFromMap r1 limit")
      case (Inl e)
      with Cons.prems Yield have "l' = l" "res = Inl e" "s' = s"
        by (simp_all add: r1_def page_step_def pure_source_simps)
      then show ?thesis by auto
    next
      case (Inr snap)
      show ?thesis
      proof (cases "fst (cb snap i s)")
        case (Some e)
        with Cons.prems Yield Inr have "l' = l @ [(snap, i)]" "res = Inl e"
            "s' = snd (cb snap i s)"
          by (simp_all add: r1_def page_step_def logged_apply pure_source_simps)
        moreover have "topNFromMap (foldl page_step r [page]) limit = Inr snap"
          using Inr by (simp add: r1_def)
        ultimately show ?thesis by (intro exI [of _ "[(snap, i)]"]) (use Yield in auto)
      next
        case None
        with Cons.prems Yield Inr
        have run: "stream_loop (logged cb) limit r1 (i + 1) (pure_source pulls)
                     (l @ [(snap, i)], snd (cb snap i s)) = (res, (l', s'))"
          by (simp add: r1_def page_step_def logged_apply pure_source_simps)
        from Cons.IH [OF run] obtain calls where
          l': "l' = (l @ [(snap, i)]) @ calls" and
          len: "length calls \<le> length (yielded pulls)" and
          nth: "\<And>k. k < length calls \<Longrightarrow> snd (calls ! k) = i + 1 + int k \<and>
                  topNFromMap (foldl page_step r1 (take (Suc k) (yielded pulls))) limit
                    = Inr (fst (calls ! k))" and
          fin: "\<And>r'. res = Inr r' \<Longrightarrow> pulls = map Yield (yielded pulls) \<and>
                  length calls = length pulls \<and> r' = foldl page_step r1 (yielded pulls)" and
          st: "s' = foldl (\<lambda>st c. snd (cb (fst c) (snd c) st)) (snd (cb snap i s)) calls"
          by blast
        let ?calls = "(snap, i) # calls"
        have "l' = l @ ?calls" using l' by simp
        moreover have "length ?calls \<le> length (yielded (p # pulls))"
          using len Yield by simp
        moreover have "\<forall>k<length ?calls. snd (?calls ! k) = i + int k \<and>
            topNFromMap (foldl page_step r (take (Suc k) (yielded (p # pulls)))) limit
              = Inr (fst (?calls ! k))"
        proof (intro allI impI)
          fix k assume k: "k < length ?calls"
          show "snd (?calls ! k) = i + int k \<and>
            topNFromMap (foldl page_step r (take (Suc k) (yielded (p # pulls)))) limit
              = Inr (fst (?calls ! k))"
          proof (cases k)
            case 0
            then show ?thesis using Inr Yield by (simp add: r1_def)
          next
            case (Suc j)
            with k have "j < length calls" by simp
            from nth [OF this] show ?thesis using Suc Yield by (simp add: r1_def)
          qed
        qed
        moreover have "\<forall>r'. res = Inr r' \<longrightarrow> p # pulls = map Yield (yielded (p # pulls)) \<and>
            length ?calls = length (p # pulls) \<and> r' = foldl page_step r (yielded (p # pulls))"
          using fin Yield by (simp add: r1_def)
        moreover have "s' = foldl (\<lambda>st c. snd (cb (fst c) (snd c) st)) s ?calls"
          using st by simp
        ultimately show ?thesis by blast
      qed
    qed
  qed
qed

lemma stream_loop_logged_same:
  "fst (stream_loop (logged cb) limit r i (pure_source pulls) (l, s))
     = fst (stream_loop cb limit r i (pure_source pulls) s) \<and>
   snd (snd (stream_loop (logged cb) limit r i (pure_source pulls) (l, s)))
     = snd (stream_loop cb limit r i (pure_source pulls) s)"
proof (induction pulls arbitrary: r i l s)
  case Nil
  show ?case by (simp add: pure_source_simps)
next
  case (Cons p pulls)
  show ?case
  proof (cases p)
    case (Throws e)
    then show ?thesis by (simp add: pure_source_simps)
  next
    case (Yield page)
    show ?thesis
      using Cons.IH
      by (simp add: Yield logged_apply Let_def pure_source_simps
          split: sum.splits prod.splits option.splits)
  qed
qed

lemma stream_loop_pure_result:
  assumes "stream_loop cb limit r i (pure_source (map Yield pages)) s = (Inr r', s')"
  shows "r' = foldl page_step r pages"
proof -
  obtain res l st where run:
    "stream_loop (logged cb) limit r i (pure_source (map Yield pages)) ([], s) = (res, (l, st))"
    by (metis prod.exhaust)
  with stream_loop_logged_same [of cb limit r i "map Yield pages" "[]" s] assms
  have "res = Inr r'" by simp
  with stream_loop_logged [OF run] show ?thesis by (auto simp: yielded_map_Yield)
qed

lemma stream_loop_traced_same:
  "fst (stream_loop (traced cb) limit r i (map traced_pull src) (ev, s))
     = fst (stream_loop cb limit r i src s) \<and>
   snd (snd (stream_loop (traced cb) limit r i (map traced_pull src) (ev, s)))
     = snd (stream_loop cb limit r i src s)"
proof (induction src arbitrary: r i ev s)
  case Nil
  show ?case by simp
next
  case (Cons nxt src)
  show ?case
    using Cons.IH
    by (simp add: traced_apply traced_pull_apply Let_def
        split: sum.splits prod.splits option.splits pull.splits)
qed

lemma stream_loop_traced:
  "stream_loop (traced cb) limit r i (map traced_pull src) (ev, s) = (Inr totals, (ev', s')) \<Longrightarrow>
   \<exists>pages calls. length pages = length src \<and> length calls = length src \<and>
     ev' = ev @ interleave pages calls \<and>
     (\<forall>k<length src. snd (calls ! k) = i + int k \<and>
        topNFromMap (foldl page_step r (take (Suc k) pages)) limit = Inr (fst (calls ! k))) \<and>
     totals = foldl page_step r pages"
proof (induction src arbitrary: r i ev s)
  case Nil
  then have "ev' = ev @ interleave [] []" "totals = foldl page_step r []" by simp_all
  then show ?case by (intro exI [of _ "[]"]) simp
next
  case (Cons nxt src)
  from Cons.prems obtain page where y: "fst (nxt s) = Yield page"
    by (cases "fst (nxt s)") (auto simp: traced_pull_apply split: prod.splits)
  define r1 where "r1 = page_step r page"
  define s1 where "s1 = snd (nxt s)"
  from Cons.prems y obtain snap where top: "topNFromMap r1 limit = Inr snap"
    by (cases "topNFromMap r1 limit")
       (auto simp: traced_pull_apply r1_def page_step_def Let_def split: prod.splits)
  from Cons.prems y top have none: "fst (cb snap i s1) = None"
    by (cases "fst (cb snap i s1)")
       (auto simp: traced_pull_apply traced_apply r1_def s1_def page_step_def Let_def
          split: prod.splits)
  from Cons.prems y top none
  have run: "stream_loop (traced cb) limit r1 (i + 1) (map traced_pull src)
               (ev @ [Pulled (Yield page), Called snap i], snd (cb snap i s1))
             = (Inr totals, (ev', s'))"
    by (simp add: traced_pull_apply traced_apply r1_def s1_def page_step_def Let_def
        split: prod.splits)
  from Cons.IH [OF run] obtain pages calls where
    lp: "length pages = length src" and lc: "length calls = length src" and
    ev': "ev' = (ev @ [Pulled (Yield page), Called snap i]) @ interleave pages calls" and
    nth: "\<And>k. k < length src \<Longrightarrow> snd (calls ! k) = i + 1 + int k \<and>
            topNFromMap (foldl page_step r1 (take (Suc k) pages)) limit = Inr (fst (calls ! k))" and
    tot: "totals = foldl page_step r1 pages"
    by blast
  let ?pages = "page # pages" and ?calls = "(snap, i) # calls"
  have "length ?pages = length (nxt # src)" "length ?calls = length (nxt # src)"
    using lp lc by simp_all
  moreover have "ev' = ev @ interleave ?pages ?calls" using ev' by simp
  moreover have "\<forall>k<length (nxt # src). snd (?calls ! k) = i + int k \<and>
      topNFromMap (foldl page_step r (take (Suc k) ?pages)) limit = Inr (fst (?calls ! k))"
  proof (intro allI impI)
    fix k assume k: "k < length (nxt # src)"
    show "snd (?calls ! k) = i + int k \<and>
      topNFromMap (foldl page_step r (take (Suc k) ?pages)) limit = Inr (fst (?calls ! k))"
    proof (cases k)
      case 0
      then show ?thesis using top by (simp add: r1_def)
    next
      case (Suc j)
      with k have "j < length src" by simp
      from nth [OF this] show ?thesis using Suc by (simp add: r1_def)
    qed
  qed
  moreover have "totals = foldl page_step r ?pages" using tot by (simp add: r1_def)
  ultimately show ?case by blast
qed

lemma interleave_nth:
  "length calls = length pages \<Longrightarrow>
   length (interleave pages calls) = 2 * length pages \<and>
   (\<forall>k<length pages.
      interleave pages calls ! (2 * k) = Pulled (Yield (pages ! k)) \<and>
      interleave pages calls ! (2 * k + 1) = Called (fst (calls ! k)) (snd (calls ! k)))"
proof (induction pages calls rule: interleave.induct)
  case (1 page pages call calls)
  then have IH: "length (interleave pages calls) = 2 * length pages"
    "\<And>k. k < length pages \<Longrightarrow>
      interleave pages calls ! (2 * k) = Pulled (Yield (pages ! k)) \<and>
      interleave pages calls ! (2 * k + 1) = Called (fst (calls ! k)) (snd (calls ! k))"
    by simp_all
  show ?case
  proof (intro conjI allI impI)
    show "length (interleave (page # pages) (call # calls)) = 2 * length (page # pages)"
      using IH(1) by simp
  next
    fix k assume "k < length (page # pages)"
    then show "interleave (page # pages) (call # calls) ! (2 * k) = Pulled (Yield ((page # pages) ! k))"
      using IH(2) by (cases k) simp_all
  next
    fix k assume "k < length (page # pages)"
    then show "interleave (page # pages) (call # calls) ! (2 * k + 1)
      = Called (fst ((call # calls) ! k)) (snd ((call # calls) ! k))"
      using IH(2) by (cases k) simp_all
  qed
qed auto

subsection \<open>Evaluation\<close>

text \<open>
  The rules that compute the functions on given arguments. Integers below \<open>2 ^ 53\<close>
  in magnitude are doubles, so sums and products of amounts in minor units are exact.
\<close>

lemmas eval_simps =
  processPageToSales_def mergeCategoryTotals_def topNFromMap_def Iterator_take_def
  toSorted_def SortCompare_def jsub_def trunc_def round_double_safe
  page1_def page2_def page3_def

subsection \<open>Facts about the heap\<close>

lemma get_Map_update:
  "get_Map (h[r := MapCell m']) r' = (if r' = r \<and> r < length h then Some m' else get_Map h r')"
  by (simp add: get_Map_def lookup_def)

lemma get_Map_in_heap: "get_Map h r = Some m \<Longrightarrow> r < length h"
  by (simp add: get_Map_def lookup_def split: if_splits)

lemma lookup_prefix: "lookup h r = Some c \<Longrightarrow> prefix h h' \<Longrightarrow> lookup h' r = Some c"
  by (auto simp: lookup_def prefix_def nth_append split: if_splits)

lemma get_Map_prefix: "get_Map h r = Some m \<Longrightarrow> prefix h h' \<Longrightarrow> get_Map h' r = Some m"
  by (auto simp: get_Map_def dest: lookup_prefix split: option.splits cell.splits)

lemma get_Array_prefix: "get_Array h r = Some rs \<Longrightarrow> prefix h h' \<Longrightarrow> get_Array h' r = Some rs"
  by (auto simp: get_Array_def dest: lookup_prefix split: option.splits cell.splits)

lemma get_Order_prefix: "get_Order h r = Some ob \<Longrightarrow> prefix h h' \<Longrightarrow> get_Order h' r = Some ob"
  by (auto simp: get_Order_def dest: lookup_prefix split: option.splits cell.splits)

lemma get_Item_prefix: "get_Item h r = Some it \<Longrightarrow> prefix h h' \<Longrightarrow> get_Item h' r = Some it"
  by (auto simp: get_Item_def dest: lookup_prefix split: option.splits cell.splits)

lemma get_Sale_prefix: "get_Sale h r = Some sale \<Longrightarrow> prefix h h' \<Longrightarrow> get_Sale h' r = Some sale"
  by (auto simp: get_Sale_def dest: lookup_prefix split: option.splits cell.splits)

lemma those_Cons_Some:
  "those (x # xs) = Some ys \<longleftrightarrow> (\<exists>y ys'. x = Some y \<and> those xs = Some ys' \<and> ys = y # ys')"
  by (auto split: option.splits)

lemma those_map_mono:
  "those (map f rs) = Some vs \<Longrightarrow> (\<And>r v. f r = Some v \<Longrightarrow> g r = Some v) \<Longrightarrow>
   those (map g rs) = Some vs"
proof (induction rs arbitrary: vs)
  case Nil
  then show ?case by simp
next
  case (Cons r rs)
  from Cons.prems(1) obtain v vs' where
    "f r = Some v" "those (map f rs) = Some vs'" "vs = v # vs'"
    unfolding list.map those_Cons_Some by blast
  with Cons.IH [of vs'] Cons.prems(2) show ?case by simp
qed

lemma read_items_prefix:
  "read_items h r = Some its \<Longrightarrow> prefix h h' \<Longrightarrow> read_items h' r = Some its"
  by (auto simp: read_items_def bind_eq_Some_conv
      intro: get_Array_prefix those_map_mono [where f = "get_Item h"] get_Item_prefix)

lemma read_order_prefix:
  "read_order h r = Some ord \<Longrightarrow> prefix h h' \<Longrightarrow> read_order h' r = Some ord"
  by (auto simp: read_order_def bind_eq_Some_conv
      intro: get_Order_prefix read_items_prefix)

lemma read_page_prefix:
  "read_page h r = Some page \<Longrightarrow> prefix h h' \<Longrightarrow> read_page h' r = Some page"
  by (auto simp: read_page_def bind_eq_Some_conv
      intro: get_Array_prefix those_map_mono [where f = "read_order h"] read_order_prefix)

lemma get_Map_update_id: "get_Map h r = Some m \<Longrightarrow> h[r := MapCell m] = h"
proof -
  assume "get_Map h r = Some m"
  then have "h ! r = MapCell m"
    by (simp add: get_Map_def lookup_def split: if_splits cell.splits)
  then show ?thesis by (metis list_update_id)
qed

lemma reduce_entries_correct:
  "b \<noteq> result \<Longrightarrow> get_Map h b = Some entries \<Longrightarrow> get_Map h result = Some m \<Longrightarrow>
   i \<le> length entries \<Longrightarrow>
   reduce_entries h b result i
     = Some (h[result := MapCell (mergeCategoryTotals m (drop i entries))])"
proof (induction "length entries - i" arbitrary: i h m)
  case 0
  then have "i = length entries" by simp
  with 0 show ?case
    by (subst reduce_entries.simps) (simp add: merge_Nil get_Map_update_id)
next
  case (Suc n)
  then have i: "i < length entries" by simp
  obtain k t where e: "entries ! i = (k, t)" by (cases "entries ! i")
  let ?m = "Map_set m k (jadd (nullish (Map_get m k) (Fin 0)) t)"
  let ?h = "h[result := MapCell ?m]"
  have b: "get_Map ?h b = Some entries"
    using Suc.prems(1,2) by (simp add: get_Map_update)
  have r: "get_Map ?h result = Some ?m"
    using Suc.prems(3) by (simp add: get_Map_update get_Map_in_heap)
  have n: "n = length entries - Suc i" using Suc.hyps(2) by simp
  have "reduce_entries h b result i = reduce_entries ?h b result (Suc i)"
    using Suc.prems(2,3) i e by (subst reduce_entries.simps) simp
  also have "\<dots> = Some (?h[result := MapCell (mergeCategoryTotals ?m (drop (Suc i) entries))])"
    using Suc.hyps(1) [OF n Suc.prems(1) b r] i by simp
  also have "mergeCategoryTotals ?m (drop (Suc i) entries)
      = mergeCategoryTotals m (drop i entries)"
    using i e by (simp add: Cons_nth_drop_Suc [symmetric] merge_Cons)
  finally show ?case by simp
qed

lemma mergeCategoryTotals_h_correct:
  assumes "get_Map h a = Some ma" and "get_Map h b = Some mb"
  shows "mergeCategoryTotals_h h a b
           = Some (h @ [MapCell (mergeCategoryTotals ma mb)], length h)"
proof -
  let ?h1 = "h @ [MapCell ma]"
  from assms(2) have b: "b \<noteq> length h" "get_Map ?h1 b = Some mb"
    by (auto dest: get_Map_in_heap intro: get_Map_prefix)
  have r: "get_Map ?h1 (length h) = Some ma"
    by (simp add: get_Map_def lookup_def)
  from reduce_entries_correct [OF b(1) b(2) r, of 0] assms(1)
  show ?thesis by (simp add: mergeCategoryTotals_h_def alloc_def)
qed

lemma processPageToSales_alt:
  "processPageToSales page =
     foldl add_sale [] (concat (map (\<lambda>ord. map mk_sale (items ord))
                                  (filter (\<lambda>ord. status ord = Paid) page)))"
  unfolding processPageToSales_def add_sale_def [abs_def] mk_sale_def [abs_def] ..

lemma those_append:
  "those xs = Some as \<Longrightarrow> those ys = Some bs \<Longrightarrow> those (xs @ ys) = Some (as @ bs)"
  by (induction xs arbitrary: as) (auto split: option.splits)

lemma status_read_order:
  "read_order h r = Some ord \<Longrightarrow> \<exists>ob. get_Order h r = Some ob \<and> o_status ob = status ord"
  by (auto simp: read_order_def bind_eq_Some_conv)

lemma filter_paid_correct:
  "those (map (read_order h) rs) = Some ords \<Longrightarrow>
   \<exists>kept. filter_paid h rs = Some kept \<and>
     those (map (read_order h) kept) = Some (filter (\<lambda>ord. status ord = Paid) ords)"
proof (induction rs arbitrary: ords)
  case Nil
  then show ?case by simp
next
  case (Cons r rs)
  from Cons.prems obtain ord ords' where
    r: "read_order h r = Some ord" and rs: "those (map (read_order h) rs) = Some ords'" and
    ords: "ords = ord # ords'"
    unfolding list.map those_Cons_Some by blast
  from Cons.IH [OF rs] obtain kept where
    kept: "filter_paid h rs = Some kept"
      "those (map (read_order h) kept) = Some (filter (\<lambda>ord. status ord = Paid) ords')"
    by blast
  from status_read_order [OF r] obtain ob where
    ob: "get_Order h r = Some ob" "o_status ob = status ord" by blast
  show ?case using kept ob r ords by simp
qed

lemma map_items_correct:
  "those (map (get_Item h) rs) = Some its \<Longrightarrow>
   \<exists>h' sales. map_items h rs = Some (h', sales) \<and> prefix h h' \<and>
     those (map (get_Sale h') sales) = Some (map mk_sale its)"
proof (induction rs arbitrary: h its)
  case Nil
  then show ?case by simp
next
  case (Cons r rs)
  from Cons.prems obtain it its' where
    r: "get_Item h r = Some it" and rs: "those (map (get_Item h) rs) = Some its'" and
    its: "its = it # its'"
    unfolding list.map those_Cons_Some by blast
  let ?h1 = "h @ [SaleCell (mk_sale it)]"
  have ext: "prefix h ?h1" by simp
  have rs1: "those (map (get_Item ?h1) rs) = Some its'"
    using rs by (rule those_map_mono) (rule get_Item_prefix [OF _ ext])
  from Cons.IH [OF rs1] obtain h' sales where
    run: "map_items ?h1 rs = Some (h', sales)" and ext': "prefix ?h1 h'" and
    sales: "those (map (get_Sale h') sales) = Some (map mk_sale its')"
    by blast
  have "get_Sale ?h1 (length h) = Some (mk_sale it)"
    by (simp add: get_Sale_def lookup_def)
  then have new: "get_Sale h' (length h) = Some (mk_sale it)"
    using ext' by (rule get_Sale_prefix)
  have "map_items h (r # rs) = Some (h', length h # sales)"
    using r run by (simp add: alloc_def mk_sale_def)
  moreover have "prefix h h'" using ext ext' by (rule prefix_order.trans)
  moreover have "those (map (get_Sale h') (length h # sales)) = Some (map mk_sale its)"
    using new sales its by simp
  ultimately show ?case by blast
qed

lemma flatMap_orders_correct:
  "those (map (read_order h) rs) = Some ords \<Longrightarrow>
   \<exists>h' sales. flatMap_orders h rs = Some (h', sales) \<and> prefix h h' \<and>
     those (map (get_Sale h') sales)
       = Some (concat (map (\<lambda>ord. map mk_sale (items ord)) ords))"
proof (induction rs arbitrary: h ords)
  case Nil
  then show ?case by simp
next
  case (Cons r rs)
  from Cons.prems obtain ord ords' where
    r: "read_order h r = Some ord" and rs: "those (map (read_order h) rs) = Some ords'" and
    ords: "ords = ord # ords'"
    unfolding list.map those_Cons_Some by blast
  from r obtain ob refs where
    ob: "get_Order h r = Some ob" and refs: "get_Array h (o_items ob) = Some refs" and
    its: "those (map (get_Item h) refs) = Some (items ord)"
    by (auto simp: read_order_def read_items_def bind_eq_Some_conv)
  from map_items_correct [OF its] obtain h1 sales where
    m: "map_items h refs = Some (h1, sales)" and ext1: "prefix h h1" and
    sales: "those (map (get_Sale h1) sales) = Some (map mk_sale (items ord))"
    by blast
  let ?h2 = "h1 @ [ArrayCell sales]"
  have ext2: "prefix h ?h2" using ext1 by (simp add: prefix_order.trans)
  have rs2: "those (map (read_order ?h2) rs) = Some ords'"
    using rs by (rule those_map_mono) (rule read_order_prefix [OF _ ext2])
  from Cons.IH [OF rs2] obtain h' rest where
    run: "flatMap_orders ?h2 rs = Some (h', rest)" and ext': "prefix ?h2 h'" and
    rest: "those (map (get_Sale h') rest)
             = Some (concat (map (\<lambda>ord. map mk_sale (items ord)) ords'))"
    by blast
  have ext1': "prefix h1 h'" using ext' by (meson prefix_order.trans prefixI)
  have sales': "those (map (get_Sale h') sales) = Some (map mk_sale (items ord))"
    using sales by (rule those_map_mono) (rule get_Sale_prefix [OF _ ext1'])
  have "flatMap_orders h (r # rs) = Some (h', sales @ rest)"
    using ob refs m run by (simp add: alloc_def)
  moreover have "prefix h h'" using ext2 ext' by (rule prefix_order.trans)
  moreover have "those (map (get_Sale h') (sales @ rest))
      = Some (concat (map (\<lambda>ord. map mk_sale (items ord)) ords))"
    using those_append [OF sales' rest] ords by simp
  ultimately show ?case by blast
qed

lemma reduce_sales_correct:
  "get_Map h acc = Some m \<Longrightarrow> those (map (get_Sale h) refs) = Some sales \<Longrightarrow>
   reduce_sales h acc refs = Some (h[acc := MapCell (foldl add_sale m sales)])"
proof (induction refs arbitrary: h m sales)
  case Nil
  then show ?case by (simp add: get_Map_update_id)
next
  case (Cons r refs)
  from Cons.prems(2) obtain sale sales' where
    r: "get_Sale h r = Some sale" and rs: "those (map (get_Sale h) refs) = Some sales'" and
    sales: "sales = sale # sales'"
    unfolding list.map those_Cons_Some by blast
  let ?h1 = "h[acc := MapCell (add_sale m sale)]"
  have acc: "get_Map ?h1 acc = Some (add_sale m sale)"
    using Cons.prems(1) by (simp add: get_Map_update get_Map_in_heap)
  have keep: "get_Sale ?h1 x = Some v" if "get_Sale h x = Some v" for x v
  proof -
    from that Cons.prems(1) have "x \<noteq> acc"
      by (auto simp: get_Sale_def get_Map_def split: option.splits cell.splits)
    with that show ?thesis by (auto simp: get_Sale_def lookup_def split: if_splits)
  qed
  have rs1: "those (map (get_Sale ?h1) refs) = Some sales'"
    using rs by (rule those_map_mono) (rule keep)
  have "reduce_sales h acc (r # refs) = reduce_sales ?h1 acc refs"
    using r Cons.prems(1) by (simp add: Map_set_h_def add_sale_def)
  also have "\<dots> = Some (?h1[acc := MapCell (foldl add_sale (add_sale m sale) sales')])"
    by (rule Cons.IH [OF acc rs1])
  finally show ?case using sales by simp
qed

lemma processPageToSales_h_correct:
  assumes "read_page h p = Some page"
  shows "\<exists>h' r. processPageToSales_h h p = Some (h', r) \<and> prefix h h' \<and> length h \<le> r \<and>
           get_Map h' r = Some (processPageToSales page)"
proof -
  from assms obtain rs where
    rs: "get_Array h p = Some rs" and ords: "those (map (read_order h) rs) = Some page"
    by (auto simp: read_page_def bind_eq_Some_conv)
  from filter_paid_correct [OF ords] obtain kept where
    kept: "filter_paid h rs = Some kept" and
    paid: "those (map (read_order h) kept) = Some (filter (\<lambda>ord. status ord = Paid) page)"
    by blast
  let ?h1 = "h @ [ArrayCell kept]"
  have ext1: "prefix h ?h1" by simp
  have filtered: "get_Array ?h1 (length h) = Some kept"
    by (simp add: get_Array_def lookup_def)
  have paid1: "those (map (read_order ?h1) kept)
      = Some (filter (\<lambda>ord. status ord = Paid) page)"
    using paid by (rule those_map_mono) (rule read_order_prefix [OF _ ext1])
  from flatMap_orders_correct [OF paid1] obtain h2 sales where
    fm: "flatMap_orders ?h1 kept = Some (h2, sales)" and ext2: "prefix ?h1 h2" and
    sales: "those (map (get_Sale h2) sales)
      = Some (concat (map (\<lambda>ord. map mk_sale (items ord))
                        (filter (\<lambda>ord. status ord = Paid) page)))"
    by blast
  let ?h3 = "h2 @ [ArrayCell sales]"
  let ?h4 = "?h3 @ [MapCell []]"
  have ext4: "prefix h2 ?h4" by simp
  have flat: "get_Array ?h4 (length h2) = Some sales"
    by (simp add: get_Array_def lookup_def nth_append)
  have acc: "get_Map ?h4 (length ?h3) = Some []"
    by (simp add: get_Map_def lookup_def nth_append)
  have sales4: "those (map (get_Sale ?h4) sales)
      = Some (concat (map (\<lambda>ord. map mk_sale (items ord))
                        (filter (\<lambda>ord. status ord = Paid) page)))"
    using sales by (rule those_map_mono) (rule get_Sale_prefix [OF _ ext4])
  let ?h5 = "?h4[length ?h3 := MapCell (processPageToSales page)]"
  have red: "reduce_sales ?h4 (length ?h3) sales = Some ?h5"
    using reduce_sales_correct [OF acc sales4] by (simp add: processPageToSales_alt)
  have h5: "?h5 = ?h3 @ [MapCell (processPageToSales page)]"
    by (simp add: list_update_append)
  have run: "processPageToSales_h h p = Some (?h5, length ?h3)"
    using rs kept filtered fm flat red by (simp add: processPageToSales_h_def alloc_def)
  have "prefix h h2" using ext1 ext2 by (rule prefix_order.trans)
  then have ext5: "prefix h ?h5" unfolding h5 by (simp add: prefix_order.trans)
  have len: "length h \<le> length ?h3"
    using \<open>prefix h h2\<close> by (auto dest: prefix_length_le)
  have res: "get_Map ?h5 (length ?h3) = Some (processPageToSales page)"
    unfolding h5 by (simp add: get_Map_def lookup_def nth_append)
  from run ext5 len res show ?thesis by blast
qed

subsection \<open>Facts about the broadcaster\<close>

lemma broadcast_to_fields:
  "readyState (sockets (broadcast_to m w c) x) = readyState (sockets w x)"
  "send_throws (sockets (broadcast_to m w c) x) = send_throws (sockets w x)"
  "timers (broadcast_to m w c) = timers w"
  by (simp_all add: broadcast_to_def ws_send_def)

lemma broadcast_to_delivered:
  "delivered (sockets (broadcast_to m w c) x) =
     (if x = c \<and> readyState (sockets w c) = OPEN \<and> \<not> send_throws (sockets w c)
      then delivered (sockets w x) @ [m] else delivered (sockets w x))"
  by (simp add: broadcast_to_def ws_send_def)

lemma broadcast_to_clients:
  "clients (broadcast_to m w c) =
     (if readyState (sockets w c) = OPEN \<and> send_throws (sockets w c)
      then removeAll c (clients w) else clients w)"
  by (simp add: broadcast_to_def ws_send_def)

lemma fold_fields:
  "readyState (sockets (foldl (broadcast_to m) w cs) x) = readyState (sockets w x)"
  "send_throws (sockets (foldl (broadcast_to m) w cs) x) = send_throws (sockets w x)"
  "timers (foldl (broadcast_to m) w cs) = timers w"
  by (induction cs rule: rev_induct) (simp_all add: broadcast_to_fields)

lemma fold_clients:
  "clients (foldl (broadcast_to m) w cs) =
     filter (\<lambda>c. \<not> (c \<in> set cs \<and> readyState (sockets w c) = OPEN \<and> send_throws (sockets w c)))
       (clients w)"
proof (induction cs rule: rev_induct)
  case Nil
  show ?case by simp
next
  case (snoc c cs)
  show ?case
    by (auto simp: broadcast_to_clients fold_fields snoc removeAll_filter_not_eq
        intro!: filter_cong)
qed

lemma fold_delivered:
  "delivered (sockets (foldl (broadcast_to m) w cs) x) =
     (if readyState (sockets w x) = OPEN \<and> \<not> send_throws (sockets w x)
      then delivered (sockets w x) @ replicate (count_list cs x) m
      else delivered (sockets w x))"
proof (induction cs rule: rev_induct)
  case Nil
  show ?case by simp
next
  case (snoc c cs)
  show ?case
    by (simp add: broadcast_to_delivered fold_fields snoc replicate_append_same)
qed

lemma broadcast_fields:
  "readyState (sockets (broadcast m w) x) = readyState (sockets w x)"
  "send_throws (sockets (broadcast m w) x) = send_throws (sockets w x)"
  "timers (broadcast m w) = timers w"
  by (simp_all add: broadcast_def fold_fields)

lemma broadcast_clients:
  "clients (broadcast m w) =
     filter (\<lambda>c. \<not> (readyState (sockets w c) = OPEN \<and> send_throws (sockets w c))) (clients w)"
  unfolding broadcast_def fold_clients by (rule filter_cong) auto

lemma count_list_distinct:
  "distinct cs \<Longrightarrow> count_list cs x = (if x \<in> set cs then 1 else 0)"
  by (induction cs) auto

lemma broadcast_delivered:
  "distinct (clients w) \<Longrightarrow>
   delivered (sockets (broadcast m w) x) =
     (if x \<in> set (clients w) \<and> readyState (sockets w x) = OPEN \<and> \<not> send_throws (sockets w x)
      then delivered (sockets w x) @ [m] else delivered (sockets w x))"
  by (simp add: broadcast_def fold_delivered count_list_distinct)

lemma broadcast_not_member:
  "x \<notin> set (clients w) \<Longrightarrow> sockets (broadcast m w) x = sockets w x"
proof -
  have "x \<notin> set cs \<Longrightarrow> sockets (foldl (broadcast_to m) w cs) x = sockets w x" for cs
    by (induction cs rule: rev_induct) (auto simp: broadcast_to_def ws_send_def split: sum.splits)
  then show "x \<notin> set (clients w) \<Longrightarrow> sockets (broadcast m w) x = sockets w x"
    by (simp add: broadcast_def)
qed

lemma stream_of_mock_pages:
  "streamTopCategories fetchOrderPages (Fin 3) onSnapshot w =
     (Inr [(''books'', Fin 10300), (''food'', Fin 3100), (''tools'', Fin 29999)],
      broadcast (cycle_updates ! 2) (broadcast (cycle_updates ! 1) (broadcast (cycle_updates ! 0) w)))"
proof -
  have r1: "mergeCategoryTotals [] (processPageToSales page1)
      = [(''books'', Fin 4900), (''food'', Fin 1500), (''tools'', Fin 9999)]"
    by (simp add: eval_simps)
  have r2: "mergeCategoryTotals [(''books'', Fin 4900), (''food'', Fin 1500), (''tools'', Fin 9999)]
        (processPageToSales page2)
      = [(''books'', Fin 4900), (''food'', Fin 3100), (''tools'', Fin 14999)]"
    by (simp add: eval_simps)
  have r3: "mergeCategoryTotals [(''books'', Fin 4900), (''food'', Fin 3100), (''tools'', Fin 14999)]
        (processPageToSales page3)
      = [(''books'', Fin 10300), (''food'', Fin 3100), (''tools'', Fin 29999)]"
    by (simp add: eval_simps)
  have s1: "topNFromMap [(''books'', Fin 4900), (''food'', Fin 1500), (''tools'', Fin 9999)] (Fin 3)
      = Inr [(''tools'', Fin 9999), (''books'', Fin 4900), (''food'', Fin 1500)]"
    by (simp add: eval_simps)
  have s2: "topNFromMap [(''books'', Fin 4900), (''food'', Fin 3100), (''tools'', Fin 14999)] (Fin 3)
      = Inr [(''tools'', Fin 14999), (''books'', Fin 4900), (''food'', Fin 3100)]"
    by (simp add: eval_simps)
  have s3: "topNFromMap [(''books'', Fin 10300), (''food'', Fin 3100), (''tools'', Fin 29999)] (Fin 3)
      = Inr [(''tools'', Fin 29999), (''books'', Fin 10300), (''food'', Fin 3100)]"
    by (simp add: eval_simps)
  show ?thesis
    by (simp add: streamTopCategories_def fetchOrderPages_def pure_source_simps r1 r2 r3 s1 s2 s3
        onSnapshot_def cycle_updates_def)
qed

lemma healthy_broadcast:
  assumes "healthy w c"
  shows "healthy (broadcast m w) c"
    and "delivered (sockets (broadcast m w) c) = delivered (sockets w c) @ [m]"
  using assms
  by (auto simp: healthy_def broadcast_clients broadcast_fields broadcast_delivered)

lemma healthy_cycle:
  assumes "healthy w c"
  shows "healthy (safeStream w) c"
    and "delivered (sockets (safeStream w) c) = delivered (sockets w c) @ cycle_updates"
    and "timers (safeStream w) = timers w @ [(5000, SafeStream)]"
proof -
  let ?w1 = "broadcast (cycle_updates ! 0) w"
  let ?w2 = "broadcast (cycle_updates ! 1) ?w1"
  let ?w3 = "broadcast (cycle_updates ! 2) ?w2"
  have w: "safeStream w = ?w3\<lparr>timers := timers ?w3 @ [(5000, SafeStream)]\<rparr>"
    by (simp add: safeStream_def stream_of_mock_pages)
  note h1 = healthy_broadcast [OF assms, of "cycle_updates ! 0"]
  note h2 = healthy_broadcast [OF h1(1), of "cycle_updates ! 1"]
  note h3 = healthy_broadcast [OF h2(1), of "cycle_updates ! 2"]
  show "healthy (safeStream w) c" using h3(1) by (simp add: w healthy_def)
  show "delivered (sockets (safeStream w) c) = delivered (sockets w c) @ cycle_updates"
    using h1(2) h2(2) h3(2) by (simp add: w cycle_updates_def)
  show "timers (safeStream w) = timers w @ [(5000, SafeStream)]"
    by (simp add: w broadcast_fields)
qed

subsection \<open>The mock source, step by step\<close>

lemma mock_steps:
  "page_step [] page1 = [(''books'', Fin 4900), (''food'', Fin 1500), (''tools'', Fin 9999)]"
  "page_step [(''books'', Fin 4900), (''food'', Fin 1500), (''tools'', Fin 9999)] page2
     = [(''books'', Fin 4900), (''food'', Fin 3100), (''tools'', Fin 14999)]"
  "page_step [(''books'', Fin 4900), (''food'', Fin 3100), (''tools'', Fin 14999)] page3
     = [(''books'', Fin 10300), (''food'', Fin 3100), (''tools'', Fin 29999)]"
  by (simp_all add: page_step_def eval_simps)

lemma mock_snapshots:
  "topNFromMap [(''books'', Fin 4900), (''food'', Fin 1500), (''tools'', Fin 9999)] (Fin 3)
     = Inr [(''tools'', Fin 9999), (''books'', Fin 4900), (''food'', Fin 1500)]"
  "topNFromMap [(''books'', Fin 4900), (''food'', Fin 3100), (''tools'', Fin 14999)] (Fin 3)
     = Inr [(''tools'', Fin 14999), (''books'', Fin 4900), (''food'', Fin 3100)]"
  "topNFromMap [(''books'', Fin 10300), (''food'', Fin 3100), (''tools'', Fin 29999)] (Fin 3)
     = Inr [(''tools'', Fin 29999), (''books'', Fin 10300), (''food'', Fin 3100)]"
  by (simp_all add: eval_simps)

lemma stream_loop_Cons:
  "stream_loop onUpdate limit r i (nxt # src) s =
     (case nxt s of
        (Throws e, s1) \<Rightarrow> (Inl e, s1)
      | (Yield page, s1) \<Rightarrow>
          (case topNFromMap (page_step r page) limit of
             Inl e \<Rightarrow> (Inl e, s1)
           | Inr snapshot \<Rightarrow>
               (case onUpdate snapshot i s1 of
                  (Some e, s2) \<Rightarrow> (Inl e, s2)
                | (None, s2) \<Rightarrow> stream_loop onUpdate limit (page_step r page) (i + 1) src s2)))"
  unfolding page_step_def by (simp add: Let_def split: prod.splits pull.splits)

subsection \<open>Facts about the snapshots\<close>

lemma topNFromMap_length:
  assumes "num_le (Fin 0) N" and "topNFromMap m N = Inr snap"
  shows "num_le (Fin (of_nat (length snap))) N"
    and "num_lt (Fin (of_nat (length m))) N \<Longrightarrow> length snap = length m"
proof -
  consider "N = PosInf" | q where "N = Fin q" "0 \<le> q"
    using assms(1) by (cases N) auto
  then have "num_le (Fin (of_nat (length snap))) N \<and>
    (num_lt (Fin (of_nat (length m))) N \<longrightarrow> length snap = length m)"
  proof cases
    case 1
    with assms(2) show ?thesis
      by (auto simp: topNFromMap_def Iterator_take_def length_toSorted)
  next
    case 2
    then have tr: "trunc q = \<lfloor>q\<rfloor>" and nonneg: "0 \<le> \<lfloor>q\<rfloor>" by (simp_all add: trunc_def)
    with assms(2) 2 have snap: "snap = take (nat \<lfloor>q\<rfloor>) (toSorted (\<lambda>a b. jsub (snd b) (snd a)) m)"
      by (auto simp: topNFromMap_def Iterator_take_def)
    then have len: "length snap = min (length m) (nat \<lfloor>q\<rfloor>)"
      by (simp add: length_toSorted)
    have "rat_of_nat (nat \<lfloor>q\<rfloor>) = of_int \<lfloor>q\<rfloor>" using nonneg by simp
    then have "rat_of_nat (nat \<lfloor>q\<rfloor>) \<le> q" by simp
    moreover have "rat_of_nat (length snap) \<le> rat_of_nat (nat \<lfloor>q\<rfloor>)"
      unfolding len by simp
    ultimately have le: "rat_of_nat (length snap) \<le> q" by linarith
    have "length snap = length m" if "rat_of_nat (length m) < q"
    proof -
      from that have "of_int (int (length m)) \<le> q" by simp
      then have "int (length m) \<le> \<lfloor>q\<rfloor>" by (simp only: le_floor_iff)
      then have "length m \<le> nat \<lfloor>q\<rfloor>" by linarith
      then show ?thesis unfolding len by simp
    qed
    with le 2 show ?thesis by (auto simp: num_lt_def)
  qed
  then show "num_le (Fin (of_nat (length snap))) N"
    and "num_lt (Fin (of_nat (length m))) N \<Longrightarrow> length snap = length m"
    by blast+
qed

lemma mock_pages_nonneg:
  "nonneg_page page1" "nonneg_page page2" "nonneg_page page3"
  "no_zero_times_infinity page1" "no_zero_times_infinity page2" "no_zero_times_infinity page3"
  by (simp_all add: nonneg_page_def no_zero_times_infinity_def page1_def page2_def page3_def)

text \<open>The rules that compute the functions on a given heap.\<close>

lemmas heap_eval =
  example_heap_def processPageToSales_h_def mergeCategoryTotals_h_def alloc_def
  get_Map_def get_Array_def get_Order_def get_Item_def get_Sale_def lookup_def Map_set_h_def
  reduce_entries.simps read_page_def read_order_def read_items_def nth_append
  round_double_safe

section \<open>The claims\<close>

subsection \<open>Order of the callback invocations\<close>

text \<open>
  Claim C1 says that each callback invocation completes before the next page is
  processed. The driver calls \<open>onUpdate\<close> without awaiting what it returns, and the
  type of the parameter, a function to \<open>void\<close>, admits an \<open>async\<close> function. The call
  of such a callback returns before the next page is pulled, but its work does not have
  to be over by then: here the work of the invocations 0 and 1 is still pending when
  the run over two pages has returned, and it finishes after both pages were processed.
\<close>

theorem unawaited_callback_counterexample:
  "streamTopCategories (map traced_pull (pure_source [Yield page1, Yield page2])) (Fin 3)
       (traced deferred_callback) ([], [])
     = (Inr [(''books'', Fin 4900), (''food'', Fin 3100), (''tools'', Fin 14999)],
        ([Pulled (Yield page1),
          Called [(''tools'', Fin 9999), (''books'', Fin 4900), (''food'', Fin 1500)] 0,
          Pulled (Yield page2),
          Called [(''tools'', Fin 14999), (''books'', Fin 4900), (''food'', Fin 3100)] 1],
         [0, 1])) \<and>
   event_loop
       ([Pulled (Yield page1),
         Called [(''tools'', Fin 9999), (''books'', Fin 4900), (''food'', Fin 1500)] 0,
         Pulled (Yield page2),
         Called [(''tools'', Fin 14999), (''books'', Fin 4900), (''food'', Fin 3100)] 1],
        [0, 1])
     = ([Pulled (Yield page1),
         Called [(''tools'', Fin 9999), (''books'', Fin 4900), (''food'', Fin 1500)] 0,
         Pulled (Yield page2),
         Called [(''tools'', Fin 14999), (''books'', Fin 4900), (''food'', Fin 3100)] 1,
         Finished 0, Finished 1], [])"
  by (simp add: streamTopCategories_def pure_source_simps stream_loop_Cons mock_steps
      mock_snapshots traced_pull_apply traced_apply deferred_callback_def event_loop_def
      del: stream_loop.simps(2))

text \<open>
  Claim C1, amended. When \<open>streamTopCategories\<close> consumes a stream without an error,
  whatever the stream and the callback do to the world, the stream has yielded as many
  pages \<open>P1..Pn\<close> as it has segments and the trace of the run is: pull of \<open>P1\<close>, call
  with index 0, pull of \<open>P2\<close>, call with index 1, and so on to the call with index
  \<open>n-1\<close>. So the callback is invoked exactly \<open>n\<close> times, once per page in arrival
  order, and the call of each invocation has returned (that is when its event is
  written) before the next page is pulled, hence before it is processed; what an
  invocation leaves pending is not waited for. The \<open>k\<close>-th invocation receives the
  snapshot of the running totals after the first \<open>k\<close> pages, and the totals returned
  are the running totals after all pages.
\<close>

theorem callbacks_in_page_order:
  assumes "streamTopCategories source limit onUpdate s = (Inr totals, s')"
  shows "\<exists>pages calls.
           streamTopCategories (map traced_pull source) limit (traced onUpdate) ([], s)
             = (Inr totals, (interleave pages calls, s')) \<and>
           length pages = length source \<and> length calls = length source \<and>
           map snd calls = map int [0..<length source] \<and>
           (\<forall>k<length source.
              topNFromMap (runningTotals_after (take (Suc k) pages)) limit
                = Inr (fst (calls ! k))) \<and>
           length (interleave pages calls) = 2 * length source \<and>
           (\<forall>k<length source.
              interleave pages calls ! (2 * k) = Pulled (Yield (pages ! k)) \<and>
              interleave pages calls ! (2 * k + 1) = Called (fst (calls ! k)) (int k)) \<and>
           totals = runningTotals_after pages"
proof -
  obtain res ev st where run:
    "stream_loop (traced onUpdate) limit [] 0 (map traced_pull source) ([], s) = (res, (ev, st))"
    by (metis prod.exhaust)
  from stream_loop_traced_same [of onUpdate limit "[]" 0 source "[]" s] run assms
  have res: "res = Inr totals" and st: "st = s'"
    by (simp_all add: streamTopCategories_def)
  from stream_loop_traced [OF run [unfolded res]] obtain pages calls where
    lp: "length pages = length source" and lc: "length calls = length source" and
    ev: "ev = [] @ interleave pages calls" and
    nth: "\<And>k. k < length source \<Longrightarrow> snd (calls ! k) = 0 + int k \<and>
            topNFromMap (foldl page_step [] (take (Suc k) pages)) limit = Inr (fst (calls ! k))" and
    tot: "totals = foldl page_step [] pages"
    by blast
  have traced_run: "streamTopCategories (map traced_pull source) limit (traced onUpdate) ([], s)
      = (Inr totals, (interleave pages calls, s'))"
    using run res st ev by (simp add: streamTopCategories_def)
  have idx: "map snd calls = map int [0..<length source]"
    by (rule nth_equalityI) (use lc nth in auto)
  have snaps: "\<forall>k<length source.
      topNFromMap (runningTotals_after (take (Suc k) pages)) limit = Inr (fst (calls ! k))"
    using nth by (simp add: runningTotals_after_def)
  from interleave_nth [of calls pages] lp lc nth
  have len: "length (interleave pages calls) = 2 * length source"
    and order: "\<forall>k<length source.
      interleave pages calls ! (2 * k) = Pulled (Yield (pages ! k)) \<and>
      interleave pages calls ! (2 * k + 1) = Called (fst (calls ! k)) (int k)"
    by auto
  have total: "totals = runningTotals_after pages"
    using tot by (simp add: runningTotals_after_def)
  from traced_run lp lc idx snaps len order total show ?thesis by blast
qed

text \<open>
  A source that counts its pulls in tens and a callback that counts its invocations in
  ones, over the three pages of the mock source.
\<close>

theorem callbacks_in_page_order_witness:
  "streamTopCategories
       [\<lambda>n. (Yield page1, n + 10), \<lambda>n. (Yield page2, n + 10), \<lambda>n. (Yield page3, n + 10)]
       (Fin 3) (\<lambda>snapshot pageIndex (n :: nat). (None, Suc n)) 0
     = (Inr [(''books'', Fin 10300), (''food'', Fin 3100), (''tools'', Fin 29999)], 33) \<and>
   streamTopCategories
       (map traced_pull
          [\<lambda>n. (Yield page1, n + 10), \<lambda>n. (Yield page2, n + 10), \<lambda>n. (Yield page3, n + 10)])
       (Fin 3) (traced (\<lambda>snapshot pageIndex (n :: nat). (None, Suc n))) ([], 0)
     = (Inr [(''books'', Fin 10300), (''food'', Fin 3100), (''tools'', Fin 29999)],
        ([Pulled (Yield page1),
          Called [(''tools'', Fin 9999), (''books'', Fin 4900), (''food'', Fin 1500)] 0,
          Pulled (Yield page2),
          Called [(''tools'', Fin 14999), (''books'', Fin 4900), (''food'', Fin 3100)] 1,
          Pulled (Yield page3),
          Called [(''tools'', Fin 29999), (''books'', Fin 10300), (''food'', Fin 3100)] 2], 33)) \<and>
   length [Pulled (Yield page1),
          Called [(''tools'', Fin 9999), (''books'', Fin 4900), (''food'', Fin 1500)] 0,
          Pulled (Yield page2),
          Called [(''tools'', Fin 14999), (''books'', Fin 4900), (''food'', Fin 3100)] 1,
          Pulled (Yield page3),
          Called [(''tools'', Fin 29999), (''books'', Fin 10300), (''food'', Fin 3100)] 2]
     = 2 * length [\<lambda>n :: nat. (Yield page1, n + 10), \<lambda>n. (Yield page2, n + 10),
                   \<lambda>n. (Yield page3, n + 10)]"
proof -
  have run: "streamTopCategories
       [\<lambda>n. (Yield page1, n + 10), \<lambda>n. (Yield page2, n + 10), \<lambda>n. (Yield page3, n + 10)]
       (Fin 3) (\<lambda>snapshot pageIndex (n :: nat). (None, Suc n)) 0
     = (Inr [(''books'', Fin 10300), (''food'', Fin 3100), (''tools'', Fin 29999)], 33)"
    by (simp add: streamTopCategories_def stream_loop_Cons mock_steps mock_snapshots
        del: stream_loop.simps(2))
  have trace: "streamTopCategories
       (map traced_pull
          [\<lambda>n. (Yield page1, n + 10), \<lambda>n. (Yield page2, n + 10), \<lambda>n. (Yield page3, n + 10)])
       (Fin 3) (traced (\<lambda>snapshot pageIndex (n :: nat). (None, Suc n))) ([], 0)
     = (Inr [(''books'', Fin 10300), (''food'', Fin 3100), (''tools'', Fin 29999)],
        ([Pulled (Yield page1),
          Called [(''tools'', Fin 9999), (''books'', Fin 4900), (''food'', Fin 1500)] 0,
          Pulled (Yield page2),
          Called [(''tools'', Fin 14999), (''books'', Fin 4900), (''food'', Fin 3100)] 1,
          Pulled (Yield page3),
          Called [(''tools'', Fin 29999), (''books'', Fin 10300), (''food'', Fin 3100)] 2], 33))"
    by (simp add: streamTopCategories_def stream_loop_Cons mock_steps mock_snapshots
        traced_pull_apply traced_apply del: stream_loop.simps(2))
  from callbacks_in_page_order [OF run] obtain pages calls where
    "streamTopCategories
       (map traced_pull
          [\<lambda>n. (Yield page1, n + 10), \<lambda>n. (Yield page2, n + 10), \<lambda>n. (Yield page3, n + 10)])
       (Fin 3) (traced (\<lambda>snapshot pageIndex (n :: nat). (None, Suc n))) ([], 0)
     = (Inr [(''books'', Fin 10300), (''food'', Fin 3100), (''tools'', Fin 29999)],
        (interleave pages calls, 33))"
    "length (interleave pages calls)
       = 2 * length [\<lambda>n :: nat. (Yield page1, n + 10), \<lambda>n. (Yield page2, n + 10),
                     \<lambda>n. (Yield page3, n + 10)]"
    by blast
  with trace have "length [Pulled (Yield page1),
          Called [(''tools'', Fin 9999), (''books'', Fin 4900), (''food'', Fin 1500)] 0,
          Pulled (Yield page2),
          Called [(''tools'', Fin 14999), (''books'', Fin 4900), (''food'', Fin 3100)] 1,
          Pulled (Yield page3),
          Called [(''tools'', Fin 29999), (''books'', Fin 10300), (''food'', Fin 3100)] 2]
     = 2 * length [\<lambda>n :: nat. (Yield page1, n + 10), \<lambda>n. (Yield page2, n + 10),
                   \<lambda>n. (Yield page3, n + 10)]"
    by simp
  with run trace show ?thesis by (intro conjI)
qed

subsection \<open>Monotone running totals\<close>

text \<open>
  Claim C2 says that the running total of a category never decreases when no quantity
  and no unit price is negative. A quantity may be \<open>Infinity\<close> and a unit price 0: both
  are non-negative, their product is \<open>NaN\<close>, and so is the running total from then on,
  which is not greater than or equal to anything. Here the first page of the mock source
  is followed by such a page, and the total of \<open>books\<close> goes from 4900 to \<open>NaN\<close>.
\<close>

theorem infinite_quantity_counterexample:
  "nonneg_page page1 \<and> nonneg_page infinite_qty_page \<and>
   streamTopCategories (pure_source (map Yield (take 1 [page1, infinite_qty_page])))
       (Fin 3) count_calls 0
     = (Inr [(''books'', Fin 4900), (''food'', Fin 1500), (''tools'', Fin 9999)], 1) \<and>
   streamTopCategories (pure_source (map Yield (take 2 [page1, infinite_qty_page])))
       (Fin 3) count_calls 0
     = (Inr [(''books'', NaN), (''food'', Fin 1500), (''tools'', Fin 9999)], 2) \<and>
   \<not> num_le (total_of [(''books'', Fin 4900), (''food'', Fin 1500), (''tools'', Fin 9999)] ''books'')
            (total_of [(''books'', NaN), (''food'', Fin 1500), (''tools'', Fin 9999)] ''books'')"
proof -
  have step: "page_step [(''books'', Fin 4900), (''food'', Fin 1500), (''tools'', Fin 9999)]
        infinite_qty_page
      = [(''books'', NaN), (''food'', Fin 1500), (''tools'', Fin 9999)]"
    by (simp add: page_step_def infinite_qty_page_def eval_simps)
  have snap: "topNFromMap [(''books'', NaN), (''food'', Fin 1500), (''tools'', Fin 9999)] (Fin 3)
      = Inr [(''books'', NaN), (''tools'', Fin 9999), (''food'', Fin 1500)]"
    by (simp add: eval_simps)
  have "nonneg_page infinite_qty_page"
    by (simp add: nonneg_page_def infinite_qty_page_def)
  moreover have "streamTopCategories (pure_source (map Yield (take 1 [page1, infinite_qty_page])))
       (Fin 3) count_calls 0
     = (Inr [(''books'', Fin 4900), (''food'', Fin 1500), (''tools'', Fin 9999)], 1)"
    by (simp add: streamTopCategories_def pure_source_simps stream_loop_Cons mock_steps
        mock_snapshots count_calls_def del: stream_loop.simps(2))
  moreover have "streamTopCategories (pure_source (map Yield (take 2 [page1, infinite_qty_page])))
       (Fin 3) count_calls 0
     = (Inr [(''books'', NaN), (''food'', Fin 1500), (''tools'', Fin 9999)], 2)"
    by (simp add: streamTopCategories_def pure_source_simps stream_loop_Cons mock_steps
        mock_snapshots step snap count_calls_def del: stream_loop.simps(2))
  moreover have "\<not> num_le
      (total_of [(''books'', Fin 4900), (''food'', Fin 1500), (''tools'', Fin 9999)] ''books'')
      (total_of [(''books'', NaN), (''food'', Fin 1500), (''tools'', Fin 9999)] ''books'')"
    by (simp add: total_of_def)
  ultimately show ?thesis using mock_pages_nonneg(1) by (intro conjI)
qed

text \<open>
  Claim C2, amended. When every quantity and every unit price of every page is
  non-negative and no line item has one of them infinite and the other zero, the totals
  that \<open>streamTopCategories\<close> returns for the first \<open>k+1\<close> pages give every category
  at least what the totals it returns for the first \<open>k\<close> pages give it, and a category
  that has an entry keeps one. The sums and products are those of doubles: rounded, and
  infinite on overflow. The totals returned are the running totals after \<open>k\<close> and
  \<open>k+1\<close> pages.
\<close>

theorem running_totals_monotone:
  assumes "\<forall>page \<in> set pages. nonneg_page page \<and> no_zero_times_infinity page" and "k < length pages"
    and "streamTopCategories (pure_source (map Yield (take k pages))) limit onUpdate s
           = (Inr before, s1)"
    and "streamTopCategories (pure_source (map Yield (take (Suc k) pages))) limit onUpdate s
           = (Inr after, s2)"
  shows "before = runningTotals_after (take k pages) \<and>
         after = runningTotals_after (take (Suc k) pages) \<and>
         num_le (total_of before c) (total_of after c) \<and>
         (\<forall>v. Map_get before c = Some v \<longrightarrow>
            (\<exists>v'. Map_get after c = Some v' \<and> num_le v v'))"
proof -
  from stream_loop_pure_result [OF assms(3) [unfolded streamTopCategories_def]]
  have before: "before = runningTotals_after (take k pages)"
    by (simp add: runningTotals_after_def)
  from stream_loop_pure_result [OF assms(4) [unfolded streamTopCategories_def]]
  have after: "after = runningTotals_after (take (Suc k) pages)"
    by (simp add: runningTotals_after_def)
  have step: "after = mergeCategoryTotals before (processPageToSales (pages ! k))"
    unfolding before after runningTotals_after_Suc [OF assms(2)] page_step_def ..
  from assms(1,2) have "nonneg_page (pages ! k)" and "no_zero_times_infinity (pages ! k)" by simp_all
  then have page: "valid_totals (processPageToSales (pages ! k))"
    by (rule valid_processPageToSales)
  from assms(1) have "\<forall>page \<in> set (take k pages). nonneg_page page \<and> no_zero_times_infinity page"
    by (auto dest: in_set_takeD)
  then have running: "valid_totals before"
    unfolding before runningTotals_after_def
    by (rule valid_running [OF valid_totals_Nil])
  from merge_monotone [OF Map_ok_processPageToSales page running] before after step
  show ?thesis by blast
qed

text \<open>The category \<open>tools\<close> between the first and the second page of the mock source.\<close>

theorem running_totals_monotone_witness:
  "nonneg_page page1 \<and> no_zero_times_infinity page1 \<and>
   nonneg_page page2 \<and> no_zero_times_infinity page2 \<and>
   nonneg_page page3 \<and> no_zero_times_infinity page3 \<and>
   (1 :: nat) < length [page1, page2, page3] \<and>
   streamTopCategories (pure_source (map Yield (take 1 [page1, page2, page3])))
       (Fin 3) count_calls 0
     = (Inr [(''books'', Fin 4900), (''food'', Fin 1500), (''tools'', Fin 9999)], 1) \<and>
   streamTopCategories (pure_source (map Yield (take (Suc 1) [page1, page2, page3])))
       (Fin 3) count_calls 0
     = (Inr [(''books'', Fin 4900), (''food'', Fin 3100), (''tools'', Fin 14999)], 2) \<and>
   total_of [(''books'', Fin 4900), (''food'', Fin 1500), (''tools'', Fin 9999)] ''tools''
     = Fin 9999 \<and>
   total_of [(''books'', Fin 4900), (''food'', Fin 3100), (''tools'', Fin 14999)] ''tools''
     = Fin 14999 \<and>
   num_le (total_of [(''books'', Fin 4900), (''food'', Fin 1500), (''tools'', Fin 9999)] ''tools'')
          (total_of [(''books'', Fin 4900), (''food'', Fin 3100), (''tools'', Fin 14999)] ''tools'')"
proof -
  have all: "\<forall>page \<in> set [page1, page2, page3]. nonneg_page page \<and> no_zero_times_infinity page"
    using mock_pages_nonneg by simp
  have k: "(1 :: nat) < length [page1, page2, page3]" by simp
  have run1: "streamTopCategories (pure_source (map Yield (take 1 [page1, page2, page3])))
       (Fin 3) count_calls 0
     = (Inr [(''books'', Fin 4900), (''food'', Fin 1500), (''tools'', Fin 9999)], 1)"
    by (simp add: streamTopCategories_def pure_source_simps stream_loop_Cons mock_steps
        mock_snapshots count_calls_def del: stream_loop.simps(2))
  have run2: "streamTopCategories (pure_source (map Yield (take (Suc 1) [page1, page2, page3])))
       (Fin 3) count_calls 0
     = (Inr [(''books'', Fin 4900), (''food'', Fin 3100), (''tools'', Fin 14999)], 2)"
    by (simp add: streamTopCategories_def pure_source_simps stream_loop_Cons mock_steps
        mock_snapshots count_calls_def del: stream_loop.simps(2))
  have v1: "total_of [(''books'', Fin 4900), (''food'', Fin 1500), (''tools'', Fin 9999)] ''tools''
     = Fin 9999"
    by (simp add: total_of_def)
  have v2: "total_of [(''books'', Fin 4900), (''food'', Fin 3100), (''tools'', Fin 14999)] ''tools''
     = Fin 14999"
    by (simp add: total_of_def)
  from running_totals_monotone [OF all k run1 run2, of "''tools''"]
  have "num_le
      (total_of [(''books'', Fin 4900), (''food'', Fin 1500), (''tools'', Fin 9999)] ''tools'')
      (total_of [(''books'', Fin 4900), (''food'', Fin 3100), (''tools'', Fin 14999)] ''tools'')"
    by blast
  with mock_pages_nonneg k run1 run2 v1 v2 show ?thesis by (intro conjI)
qed

subsection \<open>The limit of \<open>topNFromMap\<close>\<close>

text \<open>
  Claim C3 says that a limit at or below 0 gives an empty sequence. The iterator helper
  \<open>take\<close> truncates its limit to an integer and throws a \<open>RangeError\<close> when that integer
  is negative, so for the limit -1 the call returns nothing.
\<close>

theorem negative_limit_counterexample:
  "num_le (Fin (- 1)) (Fin 0) \<and> topNFromMap [(''books'', Fin 2400)] (Fin (- 1)) \<noteq> Inr []"
  by (simp add: topNFromMap_def Iterator_take_def trunc_def)

text \<open>
  Claim C3, amended. \<open>topNFromMap\<close> returns an empty sequence for a limit above -1 and
  at most 0 (such a limit truncates to 0), throws a \<open>RangeError\<close> for a limit of -1 or
  less, and returns every entry of the mapping, sorted, for a limit greater than the
  number of distinct categories.
\<close>

theorem topNFromMap_limits:
  "(num_lt (Fin (- 1)) n \<and> num_le n (Fin 0) \<longrightarrow> topNFromMap m n = Inr []) \<and>
   (num_le n (Fin (- 1)) \<longrightarrow> topNFromMap m n = Inl RangeError) \<and>
   (Map_ok m \<and> num_lt (Fin (of_nat (card (set (map fst m))))) n \<longrightarrow>
      topNFromMap m n = Inr (toSorted (\<lambda>a b. jsub (snd b) (snd a)) m) \<and>
      set (toSorted (\<lambda>a b. jsub (snd b) (snd a)) m) = set m \<and>
      length (toSorted (\<lambda>a b. jsub (snd b) (snd a)) m) = card (set (map fst m)))"
proof (intro conjI impI)
  assume a: "num_lt (Fin (- 1)) n \<and> num_le n (Fin 0)"
  then obtain q where n: "n = Fin q" and q: "- 1 < q" "q \<le> 0"
    by (cases n) (auto simp: num_lt_def)
  have "trunc q = 0"
  proof (cases "q = 0")
    case True
    then show ?thesis by (simp add: trunc_def)
  next
    case False
    with q have "q < 0" by simp
    moreover from q have "\<lceil>q\<rceil> = 0" by (simp add: ceiling_eq_iff)
    ultimately show ?thesis by (simp add: trunc_def)
  qed
  then show "topNFromMap m n = Inr []"
    by (simp add: n topNFromMap_def Iterator_take_def)
next
  assume "num_le n (Fin (- 1))"
  then consider "n = NegInf" | q where "n = Fin q" "q \<le> - 1"
    by (cases n) auto
  then show "topNFromMap m n = Inl RangeError"
  proof cases
    case 1
    then show ?thesis by (simp add: topNFromMap_def Iterator_take_def)
  next
    case 2
    then have "\<not> 0 \<le> q" by simp
    then have "trunc q = \<lceil>q\<rceil>" by (simp add: trunc_def)
    moreover from 2 have "\<lceil>q\<rceil> < 0" by simp
    ultimately have "trunc q < 0" by (simp only:)
    then show ?thesis by (simp add: 2 topNFromMap_def Iterator_take_def)
  qed
next
  assume a: "Map_ok m \<and> num_lt (Fin (of_nat (card (set (map fst m))))) n"
  let ?sorted = "toSorted (\<lambda>a b. jsub (snd b) (snd a)) m"
  from a Map_ok_card [of m] have lt: "num_lt (Fin (of_nat (length m))) n" by simp
  then consider "n = PosInf" | q where "n = Fin q" "rat_of_nat (length m) < q"
    by (cases n) (auto simp: num_lt_def)
  then show "topNFromMap m n = Inr ?sorted"
  proof cases
    case 1
    then show ?thesis by (simp add: topNFromMap_def Iterator_take_def)
  next
    case 2
    have "0 \<le> rat_of_nat (length m)" by simp
    with 2 have pos: "0 \<le> q" by linarith
    from 2 have "of_int (int (length m)) \<le> q" by simp
    then have "int (length m) \<le> \<lfloor>q\<rfloor>" by (simp only: le_floor_iff)
    then have "length ?sorted \<le> nat \<lfloor>q\<rfloor>" and "0 \<le> \<lfloor>q\<rfloor>"
      unfolding length_toSorted by linarith+
    with pos show ?thesis
      by (simp add: 2 topNFromMap_def Iterator_take_def trunc_def)
  qed
next
  show "set (toSorted (\<lambda>a b. jsub (snd b) (snd a)) m) = set m" by (rule set_toSorted)
next
  assume "Map_ok m \<and> num_lt (Fin (of_nat (card (set (map fst m))))) n"
  then show "length (toSorted (\<lambda>a b. jsub (snd b) (snd a)) m) = card (set (map fst m))"
    by (simp only: length_toSorted Map_ok_card)
qed

text \<open>The limits 0, -1/2, -1 and 3 on mappings of two categories.\<close>

theorem topNFromMap_limits_witness:
  "num_lt (Fin (- 1)) (Fin 0) \<and> num_le (Fin 0) (Fin 0) \<and>
   topNFromMap [(''books'', Fin 2400), (''food'', Fin 1500)] (Fin 0) = Inr [] \<and>
   num_lt (Fin (- 1)) (Fin (- 1 / 2)) \<and> num_le (Fin (- 1 / 2)) (Fin 0) \<and>
   topNFromMap [(''books'', Fin 2400), (''food'', Fin 1500)] (Fin (- 1 / 2)) = Inr [] \<and>
   num_le (Fin (- 1)) (Fin (- 1)) \<and>
   topNFromMap [(''books'', Fin 2400), (''food'', Fin 1500)] (Fin (- 1)) = Inl RangeError \<and>
   Map_ok [(''food'', Fin 1500), (''books'', Fin 2400)] \<and>
   num_lt (Fin (of_nat (card (set (map fst [(''food'', Fin 1500), (''books'', Fin 2400)])))))
     (Fin 3) \<and>
   topNFromMap [(''food'', Fin 1500), (''books'', Fin 2400)] (Fin 3)
     = Inr [(''books'', Fin 2400), (''food'', Fin 1500)]"
proof -
  have ok: "Map_ok [(''food'', Fin 1500), (''books'', Fin 2400)]" by (simp add: Map_ok_def)
  have card: "num_lt
      (Fin (of_nat (card (set (map fst [(''food'', Fin 1500), (''books'', Fin 2400)]))))) (Fin 3)"
    by (simp add: num_lt_def)
  have sorted: "toSorted (\<lambda>a b. jsub (snd b) (snd a)) [(''food'', Fin 1500), (''books'', Fin 2400)]
      = [(''books'', Fin 2400), (''food'', Fin 1500)]"
    by (simp add: eval_simps)
  have zero: "num_lt (Fin (- 1)) (Fin 0) \<and> num_le (Fin 0) (Fin 0)"
    by (simp add: num_lt_def)
  have half: "num_lt (Fin (- 1)) (Fin (- 1 / 2)) \<and> num_le (Fin (- 1 / 2)) (Fin 0)"
    by (simp add: num_lt_def)
  have minus: "num_le (Fin (- 1)) (Fin (- 1))" by simp
  from topNFromMap_limits [of "Fin 0" "[(''books'', Fin 2400), (''food'', Fin 1500)]"] zero
  have r0: "topNFromMap [(''books'', Fin 2400), (''food'', Fin 1500)] (Fin 0) = Inr []"
    by blast
  from topNFromMap_limits [of "Fin (- 1 / 2)" "[(''books'', Fin 2400), (''food'', Fin 1500)]"] half
  have r1: "topNFromMap [(''books'', Fin 2400), (''food'', Fin 1500)] (Fin (- 1 / 2)) = Inr []"
    by blast
  from topNFromMap_limits [of "Fin (- 1)" "[(''books'', Fin 2400), (''food'', Fin 1500)]"] minus
  have r2: "topNFromMap [(''books'', Fin 2400), (''food'', Fin 1500)] (Fin (- 1))
      = Inl RangeError"
    by blast
  from topNFromMap_limits [of "Fin 3" "[(''food'', Fin 1500), (''books'', Fin 2400)]"] ok card
  have "topNFromMap [(''food'', Fin 1500), (''books'', Fin 2400)] (Fin 3)
      = Inr (toSorted (\<lambda>a b. jsub (snd b) (snd a)) [(''food'', Fin 1500), (''books'', Fin 2400)])"
    by blast
  then have r3: "topNFromMap [(''food'', Fin 1500), (''books'', Fin 2400)] (Fin 3)
     = Inr [(''books'', Fin 2400), (''food'', Fin 1500)]"
    by (simp only: sorted)
  from zero half minus ok card r0 r1 r2 r3 show ?thesis by (intro conjI) blast+
qed

subsection \<open>Size of the snapshots\<close>

text \<open>
  Claim C4. For a limit \<open>N \<ge> 0\<close>, every snapshot handed to the callback has at most
  \<open>N\<close> entries, and when the running totals it was taken from hold fewer than \<open>N\<close>
  distinct categories it has exactly as many entries as there are categories. This holds
  for every stream of pages and every callback, also when the run fails later.
\<close>

theorem snapshot_size_bounded:
  assumes "num_le (Fin 0) N"
    and "streamTopCategories (pure_source pulls) N (logged onUpdate) ([], s)
           = (res, (calls, s'))"
    and "k < length calls"
  shows "num_le (Fin (of_nat (length (fst (calls ! k))))) N \<and>
         (num_lt (Fin (of_nat (card (set (map fst
              (runningTotals_after (take (Suc k) (yielded pulls))))))))
            N \<longrightarrow>
            length (fst (calls ! k))
              = card (set (map fst (runningTotals_after (take (Suc k) (yielded pulls))))))"
proof -
  let ?running = "runningTotals_after (take (Suc k) (yielded pulls))"
  from stream_loop_logged [OF assms(2) [unfolded streamTopCategories_def]] assms(3)
  have top: "topNFromMap ?running N = Inr (fst (calls ! k))"
    by (auto simp: runningTotals_after_def)
  have "Map_ok ?running"
    unfolding runningTotals_after_def by (rule Map_ok_running) (simp add: Map_ok_def)
  then have card: "card (set (map fst ?running)) = length ?running"
    by (rule Map_ok_card)
  from topNFromMap_length [OF assms(1) top] show ?thesis
    unfolding card by blast
qed

text \<open>The mock source with the limits 2 and 5: three categories exist after each page.\<close>

theorem snapshot_size_bounded_witness:
  "num_le (Fin 0) (Fin 2) \<and>
   streamTopCategories (pure_source [Yield page1, Yield page2, Yield page3]) (Fin 2)
       (logged (\<lambda>snapshot pageIndex (n :: nat). (None, Suc n))) ([], 0)
     = (Inr [(''books'', Fin 10300), (''food'', Fin 3100), (''tools'', Fin 29999)],
        ([([(''tools'', Fin 9999), (''books'', Fin 4900)], 0),
          ([(''tools'', Fin 14999), (''books'', Fin 4900)], 1),
          ([(''tools'', Fin 29999), (''books'', Fin 10300)], 2)], 3)) \<and>
   num_le (Fin (of_nat (length [(''tools'', Fin 14999), (''books'', Fin 4900)]))) (Fin 2) \<and>
   num_le (Fin 0) (Fin 5) \<and>
   streamTopCategories (pure_source [Yield page1, Yield page2, Yield page3]) (Fin 5)
       (logged (\<lambda>snapshot pageIndex (n :: nat). (None, Suc n))) ([], 0)
     = (Inr [(''books'', Fin 10300), (''food'', Fin 3100), (''tools'', Fin 29999)],
        ([([(''tools'', Fin 9999), (''books'', Fin 4900), (''food'', Fin 1500)], 0),
          ([(''tools'', Fin 14999), (''books'', Fin 4900), (''food'', Fin 3100)], 1),
          ([(''tools'', Fin 29999), (''books'', Fin 10300), (''food'', Fin 3100)], 2)], 3)) \<and>
   num_lt (Fin (of_nat (card (set (map fst (runningTotals_after
       (take (Suc 1) (yielded [Yield page1, Yield page2, Yield page3])))))))) (Fin 5) \<and>
   length [(''tools'', Fin 14999), (''books'', Fin 4900), (''food'', Fin 3100)]
     = card (set (map fst (runningTotals_after
         (take (Suc 1) (yielded [Yield page1, Yield page2, Yield page3])))))"
proof -
  have snaps2:
    "topNFromMap [(''books'', Fin 4900), (''food'', Fin 1500), (''tools'', Fin 9999)] (Fin 2)
       = Inr [(''tools'', Fin 9999), (''books'', Fin 4900)]"
    "topNFromMap [(''books'', Fin 4900), (''food'', Fin 3100), (''tools'', Fin 14999)] (Fin 2)
       = Inr [(''tools'', Fin 14999), (''books'', Fin 4900)]"
    "topNFromMap [(''books'', Fin 10300), (''food'', Fin 3100), (''tools'', Fin 29999)] (Fin 2)
       = Inr [(''tools'', Fin 29999), (''books'', Fin 10300)]"
    by (simp_all add: eval_simps)
  have snaps5:
    "topNFromMap [(''books'', Fin 4900), (''food'', Fin 1500), (''tools'', Fin 9999)] (Fin 5)
       = Inr [(''tools'', Fin 9999), (''books'', Fin 4900), (''food'', Fin 1500)]"
    "topNFromMap [(''books'', Fin 4900), (''food'', Fin 3100), (''tools'', Fin 14999)] (Fin 5)
       = Inr [(''tools'', Fin 14999), (''books'', Fin 4900), (''food'', Fin 3100)]"
    "topNFromMap [(''books'', Fin 10300), (''food'', Fin 3100), (''tools'', Fin 29999)] (Fin 5)
       = Inr [(''tools'', Fin 29999), (''books'', Fin 10300), (''food'', Fin 3100)]"
    by (simp_all add: eval_simps)
  have run2: "streamTopCategories (pure_source [Yield page1, Yield page2, Yield page3]) (Fin 2)
       (logged (\<lambda>snapshot pageIndex (n :: nat). (None, Suc n))) ([], 0)
     = (Inr [(''books'', Fin 10300), (''food'', Fin 3100), (''tools'', Fin 29999)],
        ([([(''tools'', Fin 9999), (''books'', Fin 4900)], 0),
          ([(''tools'', Fin 14999), (''books'', Fin 4900)], 1),
          ([(''tools'', Fin 29999), (''books'', Fin 10300)], 2)], 3))"
    by (simp add: streamTopCategories_def pure_source_simps stream_loop_Cons mock_steps
        snaps2 logged_apply del: stream_loop.simps(2))
  have run5: "streamTopCategories (pure_source [Yield page1, Yield page2, Yield page3]) (Fin 5)
       (logged (\<lambda>snapshot pageIndex (n :: nat). (None, Suc n))) ([], 0)
     = (Inr [(''books'', Fin 10300), (''food'', Fin 3100), (''tools'', Fin 29999)],
        ([([(''tools'', Fin 9999), (''books'', Fin 4900), (''food'', Fin 1500)], 0),
          ([(''tools'', Fin 14999), (''books'', Fin 4900), (''food'', Fin 3100)], 1),
          ([(''tools'', Fin 29999), (''books'', Fin 10300), (''food'', Fin 3100)], 2)], 3))"
    by (simp add: streamTopCategories_def pure_source_simps stream_loop_Cons mock_steps
        snaps5 logged_apply del: stream_loop.simps(2))
  have running: "runningTotals_after
        (take (Suc 1) (yielded [Yield page1, Yield page2, Yield page3]))
      = [(''books'', Fin 4900), (''food'', Fin 3100), (''tools'', Fin 14999)]"
    by (simp add: runningTotals_after_def mock_steps)
  have few: "num_lt (Fin (of_nat (card (set (map fst (runningTotals_after
       (take (Suc 1) (yielded [Yield page1, Yield page2, Yield page3])))))))) (Fin 5)"
    unfolding running by (simp add: num_lt_def)
  have n2: "num_le (Fin 0) (Fin 2)" and n5: "num_le (Fin 0) (Fin 5)" by simp_all
  from snapshot_size_bounded [OF n2 run2, of 1]
  have b2: "num_le (Fin (of_nat (length [(''tools'', Fin 14999), (''books'', Fin 4900)]))) (Fin 2)"
    by simp
  from snapshot_size_bounded [OF n5 run5, of 1] few
  have b5: "length [(''tools'', Fin 14999), (''books'', Fin 4900), (''food'', Fin 3100)]
     = card (set (map fst (runningTotals_after
         (take (Suc 1) (yielded [Yield page1, Yield page2, Yield page3])))))"
    by simp
  from n2 run2 b2 n5 run5 few b5 show ?thesis by (intro conjI)
qed

subsection \<open>Order inside a snapshot\<close>

text \<open>
  Claim C5 says that in every snapshot the total of an entry is at least the total of
  the entry that follows it. When a total is \<open>NaN\<close> the comparator \<open>b[1] - a[1]\<close> returns
  \<open>NaN\<close>, which the sort reads as 0, so the entries stay in insertion order, and \<open>NaN\<close>
  is not greater than or equal to anything.
\<close>

theorem nan_total_counterexample:
  "topNFromMap [(''a'', NaN), (''b'', Fin 1)] (Fin 2) = Inr [(''a'', NaN), (''b'', Fin 1)] \<and>
   Suc 0 < length [(''a'', NaN), (''b'', Fin 1)] \<and>
   \<not> num_le (snd ([(''a'', NaN), (''b'', Fin 1)] ! Suc 0)) (snd ([(''a'', NaN), (''b'', Fin 1)] ! 0))"
  by (simp add: eval_simps)

text \<open>
  Claim C5, amended. When no total of the mapping is \<open>NaN\<close> (the totals being doubles,
  possibly infinite), in every snapshot returned by \<open>topNFromMap\<close> the total of an
  entry is at least the total of the entry that follows it.
\<close>

theorem snapshot_sorted_descending:
  assumes "\<forall>e \<in> set m. snd e \<noteq> NaN \<and> is_double (snd e)"
    and "topNFromMap m n = Inr snapshot" and "Suc i < length snapshot"
  shows "num_le (snd (snapshot ! Suc i)) (snd (snapshot ! i))"
proof -
  let ?sorted = "toSorted (\<lambda>a b. jsub (snd b) (snd a)) m"
  from topNFromMap_Inr [OF assms(2)] obtain j where snap: "snapshot = take j ?sorted"
    by blast
  have "sorted_wrt (\<lambda>a b. num_le (snd b) (snd a)) (take j ?sorted)"
    by (rule sorted_wrt_take) (rule sorted_toSorted [OF assms(1)])
  with snap have "sorted_wrt (\<lambda>a b. num_le (snd b) (snd a)) snapshot" by simp
  with assms(3) show ?thesis
    by (simp add: sorted_wrt_iff_nth_less)
qed

text \<open>The totals after the first page of the mock source, and a mapping with an infinite total.\<close>

theorem snapshot_sorted_descending_witness:
  "Fin 4900 \<noteq> NaN \<and> is_double (Fin 4900) \<and> PosInf \<noteq> NaN \<and> is_double PosInf \<and>
   Fin 9999 \<noteq> NaN \<and> is_double (Fin 9999) \<and>
   topNFromMap [(''books'', Fin 4900), (''food'', PosInf), (''tools'', Fin 9999)] (Fin 3)
     = Inr [(''food'', PosInf), (''tools'', Fin 9999), (''books'', Fin 4900)] \<and>
   Suc 0 < length [(''food'', PosInf), (''tools'', Fin 9999), (''books'', Fin 4900)] \<and>
   num_le (snd ([(''food'', PosInf), (''tools'', Fin 9999), (''books'', Fin 4900)] ! Suc 0))
          (snd ([(''food'', PosInf), (''tools'', Fin 9999), (''books'', Fin 4900)] ! 0))"
proof -
  have doubles: "\<forall>e \<in> set [(''books'', Fin 4900), (''food'', PosInf), (''tools'', Fin 9999)].
      snd e \<noteq> NaN \<and> is_double (snd e)"
    by (simp add: round_double_safe)
  have top: "topNFromMap [(''books'', Fin 4900), (''food'', PosInf), (''tools'', Fin 9999)] (Fin 3)
     = Inr [(''food'', PosInf), (''tools'', Fin 9999), (''books'', Fin 4900)]"
    by (simp add: eval_simps)
  have i: "Suc 0 < length [(''food'', PosInf), (''tools'', Fin 9999), (''books'', Fin 4900)]"
    by simp
  have each: "Fin 4900 \<noteq> NaN" "is_double (Fin 4900)" "PosInf \<noteq> NaN" "is_double PosInf"
    "Fin 9999 \<noteq> NaN" "is_double (Fin 9999)"
    by (simp_all add: round_double_safe)
  from snapshot_sorted_descending [OF doubles top i] each top i show ?thesis
    by (intro conjI)
qed

subsection \<open>Values of a merge\<close>

text \<open>
  Claim C6. In the mapping returned by \<open>mergeCategoryTotals\<close>, a key of the page totals
  has the value it has in the running totals (0 when it has none) plus its page value,
  and every other key has what it has in the running totals.
\<close>

theorem merge_values:
  assumes "Map_ok pageTotals"
  shows "(\<forall>t. Map_get pageTotals k = Some t \<longrightarrow>
            Map_get (mergeCategoryTotals running pageTotals) k
              = Some (jadd (nullish (Map_get running k) (Fin 0)) t)) \<and>
         (Map_get pageTotals k = None \<longrightarrow>
            Map_get (mergeCategoryTotals running pageTotals) k = Map_get running k)"
  using Map_get_merge [OF assms, of running k] by simp

theorem merge_values_witness:
  "Map_ok [(''tools'', Fin 9999), (''books'', Fin 100)] \<and>
   Map_get [(''tools'', Fin 9999), (''books'', Fin 100)] ''books'' = Some (Fin 100) \<and>
   Map_get (mergeCategoryTotals [(''books'', Fin 2400), (''food'', Fin 1500)]
              [(''tools'', Fin 9999), (''books'', Fin 100)]) ''books'' = Some (Fin 2500) \<and>
   Map_get [(''tools'', Fin 9999), (''books'', Fin 100)] ''tools'' = Some (Fin 9999) \<and>
   Map_get (mergeCategoryTotals [(''books'', Fin 2400), (''food'', Fin 1500)]
              [(''tools'', Fin 9999), (''books'', Fin 100)]) ''tools'' = Some (Fin 9999) \<and>
   Map_get [(''tools'', Fin 9999), (''books'', Fin 100)] ''food'' = None \<and>
   Map_get (mergeCategoryTotals [(''books'', Fin 2400), (''food'', Fin 1500)]
              [(''tools'', Fin 9999), (''books'', Fin 100)]) ''food'' = Some (Fin 1500)"
proof -
  have ok: "Map_ok [(''tools'', Fin 9999), (''books'', Fin 100)]" by (simp add: Map_ok_def)
  from merge_values [OF ok, of "''books''" "[(''books'', Fin 2400), (''food'', Fin 1500)]"]
    merge_values [OF ok, of "''tools''" "[(''books'', Fin 2400), (''food'', Fin 1500)]"]
    merge_values [OF ok, of "''food''" "[(''books'', Fin 2400), (''food'', Fin 1500)]"] ok
  show ?thesis by (simp add: round_double_safe)
qed

subsection \<open>Merging the totals of an empty page\<close>

text \<open>
  Claim C7. Merging any running totals with the aggregation of an empty page gives back
  the running totals: the same keys with the same values, in the same order. On the heap
  the result is a new Map, not the object that was passed in, and both hold these entries.
\<close>

theorem merge_empty_page_identity:
  "mergeCategoryTotals running (processPageToSales []) = running \<and>
   (get_Map h a = Some running \<and> get_Array h p = Some [] \<longrightarrow>
      (\<exists>h1 e h2 r. processPageToSales_h h p = Some (h1, e) \<and>
         mergeCategoryTotals_h h1 a e = Some (h2, r) \<and>
         r \<noteq> a \<and> get_Map h2 r = Some running \<and> get_Map h2 a = Some running))"
proof (intro conjI impI)
  show "mergeCategoryTotals running (processPageToSales []) = running"
    by (simp add: mergeCategoryTotals_def processPageToSales_def)
next
  assume pre: "get_Map h a = Some running \<and> get_Array h p = Some []"
  then have "read_page h p = Some []" by (simp add: read_page_def)
  from processPageToSales_h_correct [OF this] obtain h1 e where
    run: "processPageToSales_h h p = Some (h1, e)" and ext: "prefix h h1" and
    empty: "get_Map h1 e = Some (processPageToSales [])"
    by blast
  have a1: "get_Map h1 a = Some running"
    using pre ext by (auto intro: get_Map_prefix)
  let ?h2 = "h1 @ [MapCell running]"
  have merge: "mergeCategoryTotals_h h1 a e = Some (?h2, length h1)"
    using mergeCategoryTotals_h_correct [OF a1 empty]
    by (simp add: mergeCategoryTotals_def processPageToSales_def)
  have "a < length h1" using a1 by (rule get_Map_in_heap)
  then have fresh: "length h1 \<noteq> a" by simp
  have new: "get_Map ?h2 (length h1) = Some running"
    by (simp add: get_Map_def lookup_def)
  have old: "get_Map ?h2 a = Some running"
    using a1 by (rule get_Map_prefix) simp
  from run merge fresh new old
  show "\<exists>h1 e h2 r. processPageToSales_h h p = Some (h1, e) \<and>
         mergeCategoryTotals_h h1 a e = Some (h2, r) \<and>
         r \<noteq> a \<and> get_Map h2 r = Some running \<and> get_Map h2 a = Some running"
    by blast
qed

text \<open>A heap with a Map of totals at 0 and an empty page at 1.\<close>

theorem merge_empty_page_identity_witness:
  "get_Map [MapCell [(''books'', Fin 2400)], ArrayCell []] 0 = Some [(''books'', Fin 2400)] \<and>
   get_Array [MapCell [(''books'', Fin 2400)], ArrayCell []] 1 = Some [] \<and>
   processPageToSales_h [MapCell [(''books'', Fin 2400)], ArrayCell []] 1
     = Some ([MapCell [(''books'', Fin 2400)], ArrayCell [], ArrayCell [], ArrayCell [], MapCell []], 4) \<and>
   mergeCategoryTotals_h
       [MapCell [(''books'', Fin 2400)], ArrayCell [], ArrayCell [], ArrayCell [], MapCell []] 0 4
     = Some ([MapCell [(''books'', Fin 2400)], ArrayCell [], ArrayCell [], ArrayCell [], MapCell [],
              MapCell [(''books'', Fin 2400)]], 5) \<and>
   mergeCategoryTotals [(''books'', Fin 2400)] (processPageToSales []) = [(''books'', Fin 2400)]"
proof -
  have a: "get_Map [MapCell [(''books'', Fin 2400)], ArrayCell []] 0 = Some [(''books'', Fin 2400)]"
    by (simp add: heap_eval)
  have p: "get_Array [MapCell [(''books'', Fin 2400)], ArrayCell []] 1 = Some []"
    by (simp add: heap_eval)
  have run: "processPageToSales_h [MapCell [(''books'', Fin 2400)], ArrayCell []] 1
     = Some ([MapCell [(''books'', Fin 2400)], ArrayCell [], ArrayCell [], ArrayCell [], MapCell []], 4)"
    by (simp add: heap_eval)
  have merge: "mergeCategoryTotals_h
       [MapCell [(''books'', Fin 2400)], ArrayCell [], ArrayCell [], ArrayCell [], MapCell []] 0 4
     = Some ([MapCell [(''books'', Fin 2400)], ArrayCell [], ArrayCell [], ArrayCell [], MapCell [],
              MapCell [(''books'', Fin 2400)]], 5)"
    by (simp add: heap_eval)
  from merge_empty_page_identity
    [of "[(''books'', Fin 2400)]" "[MapCell [(''books'', Fin 2400)], ArrayCell []]" 0 1]
    a p run merge
  show ?thesis by blast
qed

subsection \<open>The inputs are left alone\<close>

text \<open>
  Claim C8. \<open>mergeCategoryTotals\<close> returns a new Map, at a fresh reference, and leaves
  every cell of the heap it was called in as it was, so both of its arguments keep their
  entries, also when they are the same Map. \<open>processPageToSales\<close> likewise only
  adds cells: the page, its orders and their items read back as before. Both return the
  Map that the functions on values compute.
\<close>

theorem inputs_not_mutated:
  "(get_Map h a = Some ma \<and> get_Map h b = Some mb \<longrightarrow>
      (\<exists>h' r. mergeCategoryTotals_h h a b = Some (h', r) \<and>
         prefix h h' \<and> r = length h \<and>
         get_Map h' a = Some ma \<and> get_Map h' b = Some mb \<and>
         get_Map h' r = Some (mergeCategoryTotals ma mb))) \<and>
   (read_page h p = Some page \<longrightarrow>
      (\<exists>h' r. processPageToSales_h h p = Some (h', r) \<and>
         prefix h h' \<and> length h \<le> r \<and>
         read_page h' p = Some page \<and>
         get_Map h' r = Some (processPageToSales page)))"
proof (intro conjI impI)
  assume maps: "get_Map h a = Some ma \<and> get_Map h b = Some mb"
  let ?h' = "h @ [MapCell (mergeCategoryTotals ma mb)]"
  have "mergeCategoryTotals_h h a b = Some (?h', length h)"
    using maps by (simp add: mergeCategoryTotals_h_correct)
  moreover have "prefix h ?h'" by simp
  moreover have "get_Map ?h' a = Some ma" "get_Map ?h' b = Some mb"
    using maps by (auto intro: get_Map_prefix)
  moreover have "get_Map ?h' (length h) = Some (mergeCategoryTotals ma mb)"
    by (simp add: get_Map_def lookup_def)
  ultimately show "\<exists>h' r. mergeCategoryTotals_h h a b = Some (h', r) \<and>
         prefix h h' \<and> r = length h \<and>
         get_Map h' a = Some ma \<and> get_Map h' b = Some mb \<and>
         get_Map h' r = Some (mergeCategoryTotals ma mb)"
    by blast
next
  assume page: "read_page h p = Some page"
  from processPageToSales_h_correct [OF page] obtain h' r where
    run: "processPageToSales_h h p = Some (h', r)" "prefix h h'" "length h \<le> r"
      "get_Map h' r = Some (processPageToSales page)"
    by blast
  moreover have "read_page h' p = Some page"
    using page run(2) by (rule read_page_prefix)
  ultimately show "\<exists>h' r. processPageToSales_h h p = Some (h', r) \<and>
         prefix h h' \<and> length h \<le> r \<and>
         read_page h' p = Some page \<and>
         get_Map h' r = Some (processPageToSales page)"
    by blast
qed

theorem inputs_not_mutated_witness:
  "get_Map example_heap 8 = Some [(''books'', Fin 2400), (''tools'', Fin 9999)] \<and>
   mergeCategoryTotals_h example_heap 8 8
     = Some (example_heap @ [MapCell [(''books'', Fin 4800), (''tools'', Fin 19998)]], 9) \<and>
   read_page example_heap 7
     = Some [\<lparr>order_id = ''o1'', customerId = ''c1'', createdAt = ''2025-08-01T10:00:00Z'',
               status = Paid,
               items = [\<lparr>sku = ''A1'', qty = Fin 2, unitPrice = Fin 1200, category = ''books''\<rparr>,
                        \<lparr>sku = ''F4'', qty = Fin 3, unitPrice = Fin 500, category = ''food''\<rparr>]\<rparr>,
              \<lparr>order_id = ''o3'', customerId = ''c3'', createdAt = ''2025-08-03T12:00:00Z'',
               status = Pending,
               items = [\<lparr>sku = ''X'', qty = Fin 10, unitPrice = Fin 100, category = ''food''\<rparr>]\<rparr>] \<and>
   processPageToSales_h example_heap 7
     = Some (example_heap @
               [ArrayCell [3],
                SaleCell \<lparr>sale_category = ''books'', total = Fin 2400\<rparr>,
                SaleCell \<lparr>sale_category = ''food'', total = Fin 1500\<rparr>,
                ArrayCell [10, 11], ArrayCell [10, 11],
                MapCell [(''books'', Fin 2400), (''food'', Fin 1500)]], 14)"
proof -
  have m: "get_Map example_heap 8 = Some [(''books'', Fin 2400), (''tools'', Fin 9999)]"
    by (simp add: heap_eval)
  have merged: "mergeCategoryTotals_h example_heap 8 8
     = Some (example_heap @ [MapCell [(''books'', Fin 4800), (''tools'', Fin 19998)]], 9)"
    by (simp add: heap_eval)
  have page: "read_page example_heap 7
     = Some [\<lparr>order_id = ''o1'', customerId = ''c1'', createdAt = ''2025-08-01T10:00:00Z'',
               status = Paid,
               items = [\<lparr>sku = ''A1'', qty = Fin 2, unitPrice = Fin 1200, category = ''books''\<rparr>,
                        \<lparr>sku = ''F4'', qty = Fin 3, unitPrice = Fin 500, category = ''food''\<rparr>]\<rparr>,
              \<lparr>order_id = ''o3'', customerId = ''c3'', createdAt = ''2025-08-03T12:00:00Z'',
               status = Pending,
               items = [\<lparr>sku = ''X'', qty = Fin 10, unitPrice = Fin 100, category = ''food''\<rparr>]\<rparr>]"
    by (simp add: heap_eval)
  have run: "processPageToSales_h example_heap 7
     = Some (example_heap @
               [ArrayCell [3],
                SaleCell \<lparr>sale_category = ''books'', total = Fin 2400\<rparr>,
                SaleCell \<lparr>sale_category = ''food'', total = Fin 1500\<rparr>,
                ArrayCell [10, 11], ArrayCell [10, 11],
                MapCell [(''books'', Fin 2400), (''food'', Fin 1500)]], 14)"
    by (simp add: heap_eval)
  from inputs_not_mutated [of example_heap 8 "[(''books'', Fin 2400), (''tools'', Fin 9999)]" 8
      "[(''books'', Fin 2400), (''tools'', Fin 9999)]" 7] m merged page run
  show ?thesis by blast
qed

subsection \<open>A subscriber whose send throws\<close>

text \<open>
  Claim C9. When a message is broadcast to three subscribers and the \<open>send\<close> of
  exactly one of them throws, the message is delivered to the other two, the failing
  subscriber is deleted from the set of clients, and no later broadcast sends anything
  to it as long as the set is what this broadcast left, even if its \<open>send\<close> would
  work again. A subscriber is an open channel: \<open>broadcast\<close> calls \<open>send\<close> on the
  sockets whose \<open>readyState\<close> is \<open>OPEN\<close> and on no other.
\<close>

theorem subscriber_isolation:
  assumes "clients w = [a, b, c]" and "distinct [a, b, c]"
    and "\<forall>y \<in> {a, b, c}. readyState (sockets w y) = OPEN"
    and "x \<in> {a, b, c}"
    and "\<forall>y \<in> {a, b, c}. send_throws (sockets w y) \<longleftrightarrow> y = x"
  shows "(\<forall>y \<in> {a, b, c} - {x}.
            delivered (sockets (broadcast m w) y) = delivered (sockets w y) @ [m]) \<and>
         delivered (sockets (broadcast m w) x) = delivered (sockets w x) \<and>
         clients (broadcast m w) = removeAll x [a, b, c] \<and>
         (\<forall>w' m'. clients w' = clients (broadcast m w) \<longrightarrow>
            sockets (broadcast m' w') x = sockets w' x)"
proof -
  have d: "distinct (clients w)" using assms(1,2) by simp
  have others: "\<forall>y \<in> {a, b, c} - {x}.
      delivered (sockets (broadcast m w) y) = delivered (sockets w y) @ [m]"
    using assms by (auto simp: broadcast_delivered [OF d])
  have failing: "delivered (sockets (broadcast m w) x) = delivered (sockets w x)"
    using assms by (auto simp: broadcast_delivered [OF d])
  have cl: "clients (broadcast m w) = removeAll x [a, b, c]"
    using assms by (auto simp: broadcast_clients)
  have "x \<notin> set (clients (broadcast m w))" unfolding cl by simp
  then have later: "\<forall>w' m'. clients w' = clients (broadcast m w) \<longrightarrow>
      sockets (broadcast m' w') x = sockets w' x"
    by (auto intro: broadcast_not_member)
  from others failing cl later show ?thesis by blast
qed

theorem subscriber_isolation_witness:
  "clients example_server = [1, 2, 3] \<and> distinct [1 :: nat, 2, 3] \<and>
   readyState (sockets example_server 1) = OPEN \<and>
   readyState (sockets example_server 2) = OPEN \<and>
   readyState (sockets example_server 3) = OPEN \<and>
   \<not> send_throws (sockets example_server 1) \<and>
   send_throws (sockets example_server 2) \<and>
   \<not> send_throws (sockets example_server 3) \<and>
   delivered (sockets (broadcast (Hello ''a'') example_server) 1) = [Hello ''a''] \<and>
   delivered (sockets (broadcast (Hello ''a'') example_server) 2) = [] \<and>
   delivered (sockets (broadcast (Hello ''a'') example_server) 3) = [Hello ''a''] \<and>
   clients (broadcast (Hello ''a'') example_server) = [1, 3] \<and>
   delivered (sockets (broadcast (Hello ''b'')
       ((broadcast (Hello ''a'') example_server)
          \<lparr>sockets := (sockets (broadcast (Hello ''a'') example_server))
              (2 := \<lparr>readyState = OPEN, send_throws = False, delivered = []\<rparr>)\<rparr>)) 2) = []"
proof -
  have cl: "clients example_server = [1, 2, 3]" by (simp add: example_server_def)
  have d: "distinct [1 :: nat, 2, 3]" by simp
  have op: "\<forall>y \<in> {1, 2, 3}. readyState (sockets example_server y) = OPEN"
    by (simp add: example_server_def)
  have x: "(2 :: nat) \<in> {1, 2, 3}" by simp
  have th: "\<forall>y \<in> {1, 2, 3}. send_throws (sockets example_server y) \<longleftrightarrow> y = 2"
    by (simp add: example_server_def)
  let ?w' = "(broadcast (Hello ''a'') example_server)
          \<lparr>sockets := (sockets (broadcast (Hello ''a'') example_server))
              (2 := \<lparr>readyState = OPEN, send_throws = False, delivered = []\<rparr>)\<rparr>"
  have same: "clients ?w' = clients (broadcast (Hello ''a'') example_server)" by simp
  have empty: "delivered (sockets ?w' 2) = []" by simp
  from subscriber_isolation [OF cl d op x th, of "Hello ''a''"] same empty
  show ?thesis
    using op th by (auto simp: cl example_server_def)
qed

subsection \<open>The restart after a successful run\<close>

text \<open>
  Claim C10. The run of the stream inside \<open>safeStream\<close> ends successfully and
  \<open>safeStream\<close> then schedules itself again with a delay of 5000 ms. A subscriber that
  stays connected receives the page indexes 0, 1, 2 in every cycle, so after the timer
  has fired once it has seen 0, 1, 2, 0, 1, 2: the index starts again at 0 and does not
  keep growing.
\<close>

theorem stream_restarts_after_success:
  assumes "c \<in> set (clients w)" and "distinct (clients w)"
    and "readyState (sockets w c) = OPEN" and "\<not> send_throws (sockets w c)"
    and "timers w = []"
  shows "fst (streamTopCategories fetchOrderPages (Fin 3) onSnapshot w)
           = Inr [(''books'', Fin 10300), (''food'', Fin 3100), (''tools'', Fin 29999)] \<and>
         timers (safeStream w) = [(5000, SafeStream)] \<and>
         delivered (sockets (safeStream w) c) = delivered (sockets w c) @
           [TopCategories 0 [(''tools'', Fin 9999), (''books'', Fin 4900), (''food'', Fin 1500)],
            TopCategories 1 [(''tools'', Fin 14999), (''books'', Fin 4900), (''food'', Fin 3100)],
            TopCategories 2 [(''tools'', Fin 29999), (''books'', Fin 10300), (''food'', Fin 3100)]] \<and>
         delivered (sockets (run_timer (safeStream w)) c) = delivered (sockets w c) @
           [TopCategories 0 [(''tools'', Fin 9999), (''books'', Fin 4900), (''food'', Fin 1500)],
            TopCategories 1 [(''tools'', Fin 14999), (''books'', Fin 4900), (''food'', Fin 3100)],
            TopCategories 2 [(''tools'', Fin 29999), (''books'', Fin 10300), (''food'', Fin 3100)],
            TopCategories 0 [(''tools'', Fin 9999), (''books'', Fin 4900), (''food'', Fin 1500)],
            TopCategories 1 [(''tools'', Fin 14999), (''books'', Fin 4900), (''food'', Fin 3100)],
            TopCategories 2 [(''tools'', Fin 29999), (''books'', Fin 10300), (''food'', Fin 3100)]] \<and>
         timers (run_timer (safeStream w)) = [(5000, SafeStream)]"
proof -
  have h: "healthy w c" using assms by (simp add: healthy_def)
  note c1 = healthy_cycle [OF h]
  let ?w1 = "(safeStream w)\<lparr>timers := []\<rparr>"
  have h1: "healthy ?w1 c" using c1(1) by (simp add: healthy_def)
  note c2 = healthy_cycle [OF h1]
  have t1: "timers (safeStream w) = [(5000, SafeStream)]"
    using c1(3) assms(5) by simp
  then have fire: "run_timer (safeStream w) = safeStream ?w1"
    by (simp add: run_timer_def)
  have "fst (streamTopCategories fetchOrderPages (Fin 3) onSnapshot w)
      = Inr [(''books'', Fin 10300), (''food'', Fin 3100), (''tools'', Fin 29999)]"
    by (simp add: stream_of_mock_pages)
  moreover have "delivered (sockets (run_timer (safeStream w)) c)
      = delivered (sockets w c) @ cycle_updates @ cycle_updates"
    unfolding fire using c2(2) c1(2) by simp
  moreover have "timers (run_timer (safeStream w)) = [(5000, SafeStream)]"
    unfolding fire using c2(3) by simp
  ultimately show ?thesis
    using t1 c1(2) by (simp add: cycle_updates_def)
qed

theorem stream_restarts_after_success_witness:
  "(1 :: nat) \<in> set (clients example_server) \<and> distinct (clients example_server) \<and>
   readyState (sockets example_server 1) = OPEN \<and>
   \<not> send_throws (sockets example_server 1) \<and>
   timers example_server = [] \<and>
   timers (safeStream example_server) = [(5000, SafeStream)] \<and>
   delivered (sockets (run_timer (safeStream example_server)) 1) =
     [TopCategories 0 [(''tools'', Fin 9999), (''books'', Fin 4900), (''food'', Fin 1500)],
      TopCategories 1 [(''tools'', Fin 14999), (''books'', Fin 4900), (''food'', Fin 3100)],
      TopCategories 2 [(''tools'', Fin 29999), (''books'', Fin 10300), (''food'', Fin 3100)],
      TopCategories 0 [(''tools'', Fin 9999), (''books'', Fin 4900), (''food'', Fin 1500)],
      TopCategories 1 [(''tools'', Fin 14999), (''books'', Fin 4900), (''food'', Fin 3100)],
      TopCategories 2 [(''tools'', Fin 29999), (''books'', Fin 10300), (''food'', Fin 3100)]]"
proof -
  have c: "(1 :: nat) \<in> set (clients example_server)" by (simp add: example_server_def)
  have d: "distinct (clients example_server)" by (simp add: example_server_def)
  have op: "readyState (sockets example_server 1) = OPEN" by (simp add: example_server_def)
  have th: "\<not> send_throws (sockets example_server 1)" by (simp add: example_server_def)
  have t: "timers example_server = []" by (simp add: example_server_def)
  have e: "delivered (sockets example_server 1) = []" by (simp add: example_server_def)
  from stream_restarts_after_success [OF c d op th t] c d op th t e
  show ?thesis by simp
qed

end
